theory Spec2Isabelle
  imports Complex_Main "HOL-Library.Word"
begin

text \<open>
  A model of the \<^verbatim>\<open>Renderer\<close> class of \<^verbatim>\<open>renderer.js\<close>. The file holds two variants of the
  class; the one modelled is the first, which composites at canvas resolution with mask
  smoothing and background replacement. The preset table, \<^verbatim>\<open>updateSettings\<close> and
  \<^verbatim>\<open>applyPreset\<close> are the same in both.
\<close>

section \<open>IEEE rounding\<close>

text \<open>
  JavaScript numbers are IEEE doubles and the cells of a \<^verbatim>\<open>Float32Array\<close> are IEEE
  single-precision floats; every arithmetic operation and every store rounds to the
  nearest representable value, a tie going to the even significand. The two functions
  below give the binary exponent of a positive real: they halve or double it until it
  lies in \<open>[1, 2)\<close>.
\<close>

function expUp :: "real \<Rightarrow> int \<Rightarrow> int" where
  "expUp x e = (if x < 2 then e else expUp (x / 2) (e + 1))"
  by pat_completeness auto
termination
proof (relation "measure (\<lambda>(x, e). nat \<lceil>x\<rceil>)")
  show "wf (measure (\<lambda>(x, e). nat \<lceil>x\<rceil>))" by simp
next
  fix x :: real and e :: int
  assume "\<not> x < 2"
  then have x: "2 \<le> x" by simp
  then have "x / 2 \<le> x - 1" by simp
  then have "\<lceil>x / 2\<rceil> \<le> \<lceil>x - 1\<rceil>" by (rule ceiling_mono)
  then have "\<lceil>x / 2\<rceil> < \<lceil>x\<rceil>" by simp
  moreover have "0 < \<lceil>x\<rceil>" using x by (simp add: less_ceiling_iff)
  ultimately show "((x / 2, e + 1), (x, e)) \<in> measure (\<lambda>(x, e). nat \<lceil>x\<rceil>)" by simp
qed

function expDown :: "real \<Rightarrow> int \<Rightarrow> int" where
  "expDown x e = (if 1 \<le> x \<or> x \<le> 0 then e else expDown (2 * x) (e - 1))"
  by pat_completeness auto
termination
proof (relation "measure (\<lambda>(x, e). nat \<lceil>1 / x\<rceil>)")
  show "wf (measure (\<lambda>(x, e). nat \<lceil>1 / x\<rceil>))" by simp
next
  fix x :: real and e :: int
  assume "\<not> (1 \<le> x \<or> x \<le> 0)"
  then have x: "0 < x" "x < 1" by simp_all
  define y where "y = 1 / x"
  have y: "1 < y" using x by (simp add: y_def)
  have c2: "2 \<le> \<lceil>y\<rceil>" using y by (simp add: le_ceiling_iff)
  have "y / 2 \<le> real_of_int (\<lceil>y\<rceil> - 1)"
  proof (cases "2 \<le> y")
    case True
    have "y \<le> real_of_int \<lceil>y\<rceil>" by (rule le_of_int_ceiling)
    moreover have "real_of_int (\<lceil>y\<rceil> - 1) = real_of_int \<lceil>y\<rceil> - 1" by simp
    ultimately show ?thesis using True by linarith
  next
    case False
    have "1 \<le> real_of_int (\<lceil>y\<rceil> - 1)" using c2 by simp
    then show ?thesis using False by linarith
  qed
  then have "\<lceil>y / 2\<rceil> \<le> \<lceil>y\<rceil> - 1" by (simp only: ceiling_le_iff)
  then have lt: "\<lceil>y / 2\<rceil> < \<lceil>y\<rceil>" by linarith
  have eq2: "y / 2 = 1 / (2 * x)" by (simp add: y_def)
  have "\<lceil>1 / (2 * x)\<rceil> < \<lceil>1 / x\<rceil>" using lt unfolding eq2 unfolding y_def .
  moreover have "0 < \<lceil>1 / x\<rceil>" using c2 unfolding y_def by linarith
  ultimately show "((2 * x, e - 1), (x, e)) \<in> measure (\<lambda>(x, e). nat \<lceil>1 / x\<rceil>)"
    by simp
qed

declare expUp.simps [simp del] expDown.simps [simp del]

definition binexp :: "real \<Rightarrow> int" where
  "binexp x = (if 1 \<le> x then expUp x 0 else expDown x 0)"

text \<open>The nearest integer, a tie going to the even one.\<close>

definition roundEven :: "real \<Rightarrow> int" where
  "roundEven r =
     (let f = \<lfloor>r\<rfloor> in
      if r - of_int f < 1 / 2 then f
      else if 1 / 2 < r - of_int f then f + 1
      else if even f then f else f + 1)"

text \<open>
  Rounding to a binary format with \<open>p\<close> significand bits and least normal exponent
  \<open>emin\<close>: the value is rounded to a multiple of the spacing of the format at its
  magnitude, which below the normal range is the spacing of the subnormal numbers.
  Overflow to an infinity is not part of the model: a magnitude of \<open>2^1024\<close> or more
  (\<open>2^128\<close> for single precision) is rounded as if the exponent range had no upper end.
\<close>

definition roundTo :: "nat \<Rightarrow> int \<Rightarrow> real \<Rightarrow> real" where
  "roundTo p emin x =
     (if x = 0 then 0
      else let q = 2 powi (max (binexp \<bar>x\<bar>) emin - int p + 1)
           in of_int (roundEven (x / q)) * q)"

definition dbl :: "real \<Rightarrow> real" where
  "dbl x = roundTo 53 (- 1022) x"

definition f32 :: "real \<Rightarrow> real" where
  "f32 x = roundTo 24 (- 126) x"

text \<open>The four operations on doubles. A divisor of zero is handled where they are used.\<close>

definition dadd :: "real \<Rightarrow> real \<Rightarrow> real" where
  "dadd a b = dbl (dbl a + dbl b)"

definition dsub :: "real \<Rightarrow> real \<Rightarrow> real" where
  "dsub a b = dbl (dbl a - dbl b)"

definition dmul :: "real \<Rightarrow> real \<Rightarrow> real" where
  "dmul a b = dbl (dbl a * dbl b)"

definition ddiv :: "real \<Rightarrow> real \<Rightarrow> real" where
  "ddiv a b = dbl (dbl a / dbl b)"

section \<open>JavaScript values used by the renderer\<close>

text \<open>
  A JavaScript number is \<open>Num r\<close> or \<open>NaN\<close>, where \<open>Num r\<close> stands for the double nearest to
  the real \<open>r\<close>, as a number literal does: every operation rounds its operands and its
  result, so \<open>Num (4 / 10)\<close> is the JavaScript number \<^verbatim>\<open>0.4\<close>. The value \<open>undefined\<close> (what a
  typed array returns for an index out of range) only ever meets arithmetic,
  comparisons and typed-array stores in \<^verbatim>\<open>renderer.js\<close>, where it behaves as \<open>NaN\<close>, so it
  is represented by \<open>NaN\<close> too. Infinities and the sign of zero are not represented.
\<close>

datatype jsnum = Num real | NaN

fun jadd :: "jsnum \<Rightarrow> jsnum \<Rightarrow> jsnum" where
  "jadd (Num a) (Num b) = Num (dadd a b)"
| "jadd _ _ = NaN"

fun jsub :: "jsnum \<Rightarrow> jsnum \<Rightarrow> jsnum" where
  "jsub (Num a) (Num b) = Num (dsub a b)"
| "jsub _ _ = NaN"

fun jmul :: "jsnum \<Rightarrow> jsnum \<Rightarrow> jsnum" where
  "jmul (Num a) (Num b) = Num (dmul a b)"
| "jmul _ _ = NaN"

text \<open>
  Division by zero gives an infinity (or \<open>NaN\<close> for \<open>0/0\<close>) in JavaScript. The renderer
  divides by a mask width or height of zero only where the quotient is never read, and
  otherwise by the constants 10 and 3 and by a positive count; the model returns
  \<open>NaN\<close> for a zero divisor.
\<close>

fun jdiv :: "jsnum \<Rightarrow> jsnum \<Rightarrow> jsnum" where
  "jdiv (Num a) (Num b) = (if dbl b = 0 then NaN else Num (ddiv a b))"
| "jdiv _ _ = NaN"

text \<open>\<^verbatim>\<open>a > b\<close>, \<^verbatim>\<open>a < b\<close> and \<^verbatim>\<open>a === b\<close> on numbers: false as soon as one side is \<open>NaN\<close>.\<close>

fun jgt :: "jsnum \<Rightarrow> jsnum \<Rightarrow> bool" where
  "jgt (Num a) (Num b) = (dbl b < dbl a)"
| "jgt _ _ = False"

fun jlt :: "jsnum \<Rightarrow> jsnum \<Rightarrow> bool" where
  "jlt (Num a) (Num b) = (dbl a < dbl b)"
| "jlt _ _ = False"

fun jeq :: "jsnum \<Rightarrow> jsnum \<Rightarrow> bool" where
  "jeq (Num a) (Num b) = (dbl a = dbl b)"
| "jeq _ _ = False"

fun jfloor :: "jsnum \<Rightarrow> jsnum" where
  "jfloor (Num a) = Num (of_int \<lfloor>dbl a\<rfloor>)"
| "jfloor NaN = NaN"

text \<open>\<^verbatim>\<open>Math.max\<close>: \<open>NaN\<close> if either argument is.\<close>

fun jmax :: "jsnum \<Rightarrow> jsnum \<Rightarrow> jsnum" where
  "jmax (Num a) (Num b) = Num (max (dbl a) (dbl b))"
| "jmax _ _ = NaN"

type_synonym byte = "8 word"

definition byteNum :: "byte \<Rightarrow> jsnum" where
  "byteNum b = Num (of_nat (unat b))"

text \<open>Reading a \<^verbatim>\<open>Uint8Array\<close> or \<^verbatim>\<open>Uint8ClampedArray\<close> cell; out of range is \<open>undefined\<close>.\<close>

definition readU8 :: "byte list \<Rightarrow> int \<Rightarrow> jsnum" where
  "readU8 a i = (if 0 \<le> i \<and> i < int (length a) then byteNum (a ! nat i) else NaN)"

text \<open>Reading a \<^verbatim>\<open>Float32Array\<close> cell.\<close>

definition readF32 :: "jsnum list \<Rightarrow> int \<Rightarrow> jsnum" where
  "readF32 a i = (if 0 \<le> i \<and> i < int (length a) then a ! nat i else NaN)"

text \<open>The value a \<^verbatim>\<open>Float32Array\<close> cell holds after a number is stored into it.\<close>

fun storeF32 :: "jsnum \<Rightarrow> jsnum" where
  "storeF32 (Num a) = Num (f32 (dbl a))"
| "storeF32 NaN = NaN"

text \<open>
  Storing a number into a \<^verbatim>\<open>Uint8ClampedArray\<close> (the \<^verbatim>\<open>data\<close> of an \<^verbatim>\<open>ImageData\<close>) converts
  it with ECMAScript's ToUint8Clamp: \<open>NaN\<close> and negatives become 0, values from 255 up
  become 255, and anything between is rounded to the nearest integer, a tie going to the
  even neighbour.
\<close>

definition toUint8Clamp :: "jsnum \<Rightarrow> byte" where
  "toUint8Clamp v =
     (case v of
        NaN \<Rightarrow> 0
      | Num a \<Rightarrow>
          let r = dbl a in
          if r \<le> 0 then 0
          else if 255 \<le> r then 255
          else let f = \<lfloor>r\<rfloor> in
            if of_int f + 1 / 2 < r then word_of_int (f + 1)
            else if r < of_int f + 1 / 2 then word_of_int f
            else if even f then word_of_int f
            else word_of_int (f + 1))"

section \<open>Style settings and presets\<close>

record style_settings =
  vizMode :: string
  colorMode :: string
  fillColor :: string
  outlineColor :: string
  bgColor :: string
  fillOpacity :: jsnum
  outlineThickness :: jsnum
  showLabels :: bool
  segmentationMode :: bool
  bgReplace :: bool
  smoothing :: jsnum

text \<open>The settings object built by the constructor.\<close>

definition defaultSettings :: style_settings where
  "defaultSettings =
     \<lparr> vizMode = ''both'', colorMode = ''fixed'', fillColor = ''#ffffff'',
       outlineColor = ''#ffffff'', bgColor = ''#000000'', fillOpacity = Num (5 / 10),
       outlineThickness = Num 3, showLabels = True, segmentationMode = True,
       bgReplace = False, smoothing = Num 2 \<rparr>"

text \<open>
  An object literal that lists some of the settings keys, as passed to
  \<^verbatim>\<open>updateSettings\<close> and as stored in the preset table: \<open>None\<close> for a key that is not
  listed.
\<close>

record partial_settings =
  p_vizMode :: "string option"
  p_colorMode :: "string option"
  p_fillColor :: "string option"
  p_outlineColor :: "string option"
  p_bgColor :: "string option"
  p_fillOpacity :: "jsnum option"
  p_outlineThickness :: "jsnum option"
  p_showLabels :: "bool option"
  p_segmentationMode :: "bool option"
  p_bgReplace :: "bool option"
  p_smoothing :: "jsnum option"

definition noSettings :: partial_settings where
  "noSettings =
     \<lparr> p_vizMode = None, p_colorMode = None, p_fillColor = None, p_outlineColor = None,
       p_bgColor = None, p_fillOpacity = None, p_outlineThickness = None,
       p_showLabels = None, p_segmentationMode = None, p_bgReplace = None,
       p_smoothing = None \<rparr>"

definition orElse :: "'a option \<Rightarrow> 'a \<Rightarrow> 'a" where
  "orElse v d = (case v of None \<Rightarrow> d | Some x \<Rightarrow> x)"

text \<open>\<^verbatim>\<open>Object.assign(target, source)\<close> on the settings keys.\<close>

definition assign :: "style_settings \<Rightarrow> partial_settings \<Rightarrow> style_settings" where
  "assign s p =
     \<lparr> vizMode = orElse (p_vizMode p) (vizMode s),
       colorMode = orElse (p_colorMode p) (colorMode s),
       fillColor = orElse (p_fillColor p) (fillColor s),
       outlineColor = orElse (p_outlineColor p) (outlineColor s),
       bgColor = orElse (p_bgColor p) (bgColor s),
       fillOpacity = orElse (p_fillOpacity p) (fillOpacity s),
       outlineThickness = orElse (p_outlineThickness p) (outlineThickness s),
       showLabels = orElse (p_showLabels p) (showLabels s),
       segmentationMode = orElse (p_segmentationMode p) (segmentationMode s),
       bgReplace = orElse (p_bgReplace p) (bgReplace s),
       smoothing = orElse (p_smoothing p) (smoothing s) \<rparr>"

definition mkPreset :: "string \<Rightarrow> string \<Rightarrow> jsnum \<Rightarrow> jsnum \<Rightarrow> string \<Rightarrow> partial_settings" where
  "mkPreset fc oc fo ot vm =
     noSettings \<lparr> p_fillColor := Some fc, p_outlineColor := Some oc, p_fillOpacity := Some fo,
       p_outlineThickness := Some ot, p_vizMode := Some vm \<rparr>"

text \<open>The own properties of \<^verbatim>\<open>this.presets\<close>.\<close>

definition presets :: "string \<Rightarrow> partial_settings option" where
  "presets key =
     (if key = ''E'' then Some (mkPreset ''#00ff00'' ''#39ff14'' (Num (4 / 10)) (Num 4) ''both'')
      else if key = ''R'' then Some (mkPreset ''#ff0000'' ''#ff0000'' (Num (3 / 10)) (Num 5) ''outline'')
      else if key = ''T'' then Some (mkPreset ''#00ff00'' ''#00aa00'' (Num (6 / 10)) (Num 2) ''both'')
      else if key = ''Z'' then Some (mkPreset ''#ff00ff'' ''#00ffff'' (Num (5 / 10)) (Num 3) ''both'')
      else if key = ''U'' then Some (mkPreset ''#ffffff'' ''#ffffff'' (Num (2 / 10)) (Num 2) ''outline'')
      else if key = ''I'' then Some (mkPreset ''#000000'' ''#ffffff'' (Num (8 / 10)) (Num 2) ''both'')
      else if key = ''O'' then Some (mkPreset ''#ffa500'' ''#ff4500'' (Num (5 / 10)) (Num 4) ''both'')
      else None)"

text \<open>
  \<^verbatim>\<open>this.presets\<close> is an object literal, so \<^verbatim>\<open>this.presets[key]\<close> also finds what the
  object inherits from \<^verbatim>\<open>Object.prototype\<close>: the methods below and the accessor
  \<^verbatim>\<open>__proto__\<close>. Each of them is a function or an object, hence truthy, and none has an
  own enumerable property, so \<^verbatim>\<open>Object.assign\<close> copies nothing from it.
\<close>

definition objectPrototypeKeys :: "string list" where
  "objectPrototypeKeys =
     [''constructor'', ''hasOwnProperty'', ''isPrototypeOf'', ''propertyIsEnumerable'',
      ''toLocaleString'', ''toString'', ''valueOf'', ''__proto__'', ''__defineGetter__'',
      ''__defineSetter__'', ''__lookupGetter__'', ''__lookupSetter__'']"


datatype preset_lookup = Undefined | OwnPreset partial_settings | Inherited string

definition presetsGet :: "string \<Rightarrow> preset_lookup" where
  "presetsGet key =
     (case presets key of
        Some p \<Rightarrow> OwnPreset p
      | None \<Rightarrow> if key \<in> set objectPrototypeKeys then Inherited key else Undefined)"

text \<open>What \<^verbatim>\<open>applyPreset\<close> returns: \<^verbatim>\<open>null\<close>, or the value found under the key.\<close>

datatype preset_result = Null | Found preset_lookup

definition updateSettings :: "style_settings \<Rightarrow> partial_settings \<Rightarrow> style_settings" where
  "updateSettings s newSettings = assign s newSettings"

definition applyPreset :: "style_settings \<Rightarrow> string \<Rightarrow> style_settings \<times> preset_result" where
  "applyPreset s key =
     (case presetsGet key of
        Undefined \<Rightarrow> (s, Null)
      | OwnPreset p \<Rightarrow> (assign s p, Found (OwnPreset p))
      | Inherited k \<Rightarrow> (s, Found (Inherited k)))"

section \<open>Colours\<close>

text \<open>
  Strings are lists of code units below 256. \<^verbatim>\<open>parseInt(s, 16)\<close> skips leading white
  space, reads an optional sign and an optional \<^verbatim>\<open>0x\<close> prefix, and then the longest run of
  hexadecimal digits; with no digit the result is \<open>NaN\<close>.
\<close>

definition isStrWhiteSpace :: "char \<Rightarrow> bool" where
  "isStrWhiteSpace c = (of_char c \<in> set [9, 10, 11, 12, 13, 32, 160 :: nat])"

definition isHexDigit :: "char \<Rightarrow> bool" where
  "isHexDigit c =
     (let n = (of_char c :: nat)
      in (48 \<le> n \<and> n \<le> 57) \<or> (97 \<le> n \<and> n \<le> 102) \<or> (65 \<le> n \<and> n \<le> 70))"

definition hexDigitValue :: "char \<Rightarrow> nat" where
  "hexDigitValue c =
     (let n = (of_char c :: nat)
      in if n \<le> 57 then n - 48 else if 97 \<le> n then n - 87 else n - 55)"

definition parseInt16 :: "string \<Rightarrow> jsnum" where
  "parseInt16 inputString =
     (let s = dropWhile isStrWhiteSpace inputString;
          sign = (if take 1 s = ''-'' then - 1 else 1 :: real);
          s1 = (if take 1 s = ''+'' \<or> take 1 s = ''-'' then drop 1 s else s);
          s2 = (if take 2 s1 = ''0x'' \<or> take 2 s1 = ''0X'' then drop 2 s1 else s1);
          z = takeWhile isHexDigit s2
      in if z = [] then NaN
         else Num (sign * of_nat (foldl (\<lambda>acc c. 16 * acc + hexDigitValue c) 0 z)))"

text \<open>\<^verbatim>\<open>hex.slice(a, b)\<close> for \<open>0 \<le> a \<le> b\<close>.\<close>

definition slice :: "string \<Rightarrow> nat \<Rightarrow> nat \<Rightarrow> string" where
  "slice s a b = take (b - a) (drop a s)"

definition hexToRGB :: "string \<Rightarrow> jsnum list" where
  "hexToRGB hex =
     (let r = parseInt16 (slice hex 1 3);
          g = parseInt16 (slice hex 3 5);
          b = parseInt16 (slice hex 5 7)
      in [r, g, b])"

section \<open>The renderer and its mask processing\<close>

record renderer =
  settings :: style_settings
  prevMask :: "jsnum list option"
  canvasWidth :: nat
  canvasHeight :: nat

text \<open>The renderer as the constructor leaves it, on a canvas of the given size.\<close>

definition newRenderer :: "nat \<Rightarrow> nat \<Rightarrow> renderer" where
  "newRenderer cw ch =
     \<lparr> settings = defaultSettings, prevMask = None, canvasWidth = cw, canvasHeight = ch \<rparr>"

text \<open>
  One turn of the loop of \<^verbatim>\<open>smoothMask\<close>, on the pair of the history buffer and the
  output buffer. The blend is a double; the history, a \<^verbatim>\<open>Float32Array\<close>, keeps it rounded to
  single precision, while the threshold test reads the double.
\<close>

definition smoothStep ::
  "jsnum \<Rightarrow> byte list \<Rightarrow> jsnum list \<times> byte list \<Rightarrow> nat \<Rightarrow> jsnum list \<times> byte list" where
  "smoothStep factor currentMask st i =
     (let prev = fst st; smoothed = snd st;
          blended = jadd (jmul (readF32 prev (int i)) factor)
                         (jmul (readU8 currentMask (int i)) (jsub (Num 1) factor))
      in (prev[i := storeF32 blended],
          smoothed[i := (if jgt blended (Num (5 / 10)) then 1 else 0)]))"

text \<open>
  \<^verbatim>\<open>smoothMask(currentMask, width, height)\<close>: the new renderer and the returned mask.
  \<^verbatim>\<open>!this.prevMask\<close> holds of \<^verbatim>\<open>null\<close> only, and the three disjuncts of the guard lead to
  the same branch, so the case of no history is taken first here and the tests of the
  smoothing strength and of the two lengths follow. The parameters \<^verbatim>\<open>width\<close> and \<^verbatim>\<open>height\<close>
  are not read by the source. \<^verbatim>\<open>new Float32Array(currentMask)\<close> holds the bytes of the mask,
  which single precision represents exactly.
\<close>

definition smoothMask :: "renderer \<Rightarrow> byte list \<Rightarrow> nat \<Rightarrow> nat \<Rightarrow> renderer \<times> byte list" where
  "smoothMask r currentMask width height =
     (case prevMask r of
        None \<Rightarrow> (r\<lparr>prevMask := Some (map byteNum currentMask)\<rparr>, currentMask)
      | Some prev \<Rightarrow>
          if jeq (smoothing (settings r)) (Num 0) \<or> length prev \<noteq> length currentMask
          then (r\<lparr>prevMask := Some (map byteNum currentMask)\<rparr>, currentMask)
          else
            let factor = jdiv (smoothing (settings r)) (Num 10);
                res = foldl (smoothStep factor currentMask)
                        (prev, replicate (length currentMask) 0) [0..<length currentMask]
            in (r\<lparr>prevMask := Some (fst res)\<rparr>, snd res))"

text \<open>The 3x3 kernel of \<^verbatim>\<open>blurMask\<close> at cell \<open>(x, y)\<close>: the pair of \<^verbatim>\<open>sum\<close> and \<^verbatim>\<open>count\<close>.\<close>

definition kernelCell ::
  "jsnum list \<Rightarrow> nat \<Rightarrow> nat \<Rightarrow> nat \<Rightarrow> nat \<Rightarrow> jsnum \<times> nat \<Rightarrow> int \<times> int \<Rightarrow> jsnum \<times> nat" where
  "kernelCell data width height x y acc d =
     (let dy = fst d; dx = snd d; nx = int x + dx; ny = int y + dy
      in if 0 \<le> nx \<and> nx < int width \<and> 0 \<le> ny \<and> ny < int height
         then (jadd (fst acc) (readF32 data (ny * int width + nx)), snd acc + 1)
         else acc)"

text \<open>The pairs \<open>(dy, dx)\<close> in the order the two kernel loops visit them.\<close>

definition kernelOffsets :: "(int \<times> int) list" where
  "kernelOffsets = concat (map (\<lambda>dy. map (\<lambda>dx. (dy, dx)) [- 1, 0, 1]) [- 1, 0, 1])"

definition blurCell :: "jsnum list \<Rightarrow> nat \<Rightarrow> nat \<Rightarrow> nat \<Rightarrow> jsnum list \<Rightarrow> nat \<Rightarrow> jsnum list" where
  "blurCell data width height y newData x =
     (let sc = foldl (kernelCell data width height x y) (Num 0, 0) kernelOffsets
      in newData[y * width + x := storeF32 (jdiv (fst sc) (Num (of_nat (snd sc))))])"

definition blurPass :: "nat \<Rightarrow> nat \<Rightarrow> jsnum list \<Rightarrow> jsnum list" where
  "blurPass width height data =
     foldl (\<lambda>newData y. foldl (blurCell data width height y) newData [0..<width])
       (replicate (length data) (Num 0)) [0..<height]"

text \<open>How often \<^verbatim>\<open>for (let iter = 0; iter < iterations; iter++)\<close> runs its body.\<close>

definition iterCount :: "jsnum \<Rightarrow> nat" where
  "iterCount iterations = (case iterations of NaN \<Rightarrow> 0 | Num k \<Rightarrow> nat \<lceil>dbl k\<rceil>)"

definition blurMask :: "byte list \<Rightarrow> nat \<Rightarrow> nat \<Rightarrow> jsnum \<Rightarrow> byte list" where
  "blurMask maskData width height iterations =
     (if jeq iterations (Num 0) then maskData
      else
        let data = ((blurPass width height) ^^ (iterCount iterations)) (map byteNum maskData)
        in map (\<lambda>v. if jgt v (Num (5 / 10)) then 1 else 0) data)"

text \<open>
  The first two statements of \<^verbatim>\<open>drawSegmentation\<close> after its guard: temporal smoothing,
  then \<open>floor(smoothing / 3)\<close> passes of the spatial blur.
\<close>

definition processMask :: "renderer \<Rightarrow> byte list \<Rightarrow> nat \<Rightarrow> nat \<Rightarrow> renderer \<times> byte list" where
  "processMask r maskIn width height =
     (let sm = smoothMask r maskIn width height;
          r1 = fst sm
      in (r1, blurMask (snd sm) width height
                (jfloor (jdiv (smoothing (settings r1)) (Num 3)))))"

section \<open>Compositing\<close>

text \<open>
  The body of the pixel loop of \<^verbatim>\<open>drawSegmentation\<close> for output pixel \<open>(x, y)\<close>. The scale
  factors are quotients of positive sizes here: the loop runs only on a canvas with
  pixels, and \<^verbatim>\<open>getImageData\<close> has refused a mask without cells before. The two scale
  factors and the two mask coordinates are divisions of doubles. The coordinates are
  integers, and so are the indices computed from them; sizes and indices are far below
  \<open>2^53\<close>, where integer arithmetic on doubles is exact, so they are computed as integers.
\<close>

definition pixelStep ::
  "style_settings \<Rightarrow> byte list \<Rightarrow> byte list \<Rightarrow> jsnum list \<Rightarrow> jsnum list \<Rightarrow>
   nat \<Rightarrow> nat \<Rightarrow> nat \<Rightarrow> nat \<Rightarrow> nat \<Rightarrow> byte list \<Rightarrow> nat \<Rightarrow> byte list" where
  "pixelStep s maskData videoData fillRGB bgRGB width height cw ch y out x =
     (let scaleX = ddiv (real cw) (real width);
          scaleY = ddiv (real ch) (real height);
          maskX = \<lfloor>ddiv (real x) scaleX\<rfloor>;
          maskY = \<lfloor>ddiv (real y) scaleY\<rfloor>;
          maskIdx = maskY * int width + maskX;
          isSegmented = jeq (readU8 maskData maskIdx) (Num 1);
          outIdx = (y * cw + x) * 4;
          vidIdx = (maskY * int width + maskX) * 4;
          vidR = readU8 videoData vidIdx;
          vidG = readU8 videoData (vidIdx + 1);
          vidB = readU8 videoData (vidIdx + 2)
      in if bgReplace s then
           (if isSegmented then
              (if vizMode s = ''fill'' \<or> vizMode s = ''both'' then
                 (let blend = fillOpacity s
                  in out[outIdx := toUint8Clamp (jadd (jmul vidR (jsub (Num 1) blend)) (jmul (fillRGB ! 0) blend)),
                         outIdx + 1 := toUint8Clamp (jadd (jmul vidG (jsub (Num 1) blend)) (jmul (fillRGB ! 1) blend)),
                         outIdx + 2 := toUint8Clamp (jadd (jmul vidB (jsub (Num 1) blend)) (jmul (fillRGB ! 2) blend))])
               else
                 out[outIdx := toUint8Clamp vidR,
                     outIdx + 1 := toUint8Clamp vidG,
                     outIdx + 2 := toUint8Clamp vidB])
              [outIdx + 3 := 255]
            else
              out[outIdx := toUint8Clamp (bgRGB ! 0),
                  outIdx + 1 := toUint8Clamp (bgRGB ! 1),
                  outIdx + 2 := toUint8Clamp (bgRGB ! 2),
                  outIdx + 3 := 255])
         else
           (let out1 = out[outIdx := toUint8Clamp vidR,
                           outIdx + 1 := toUint8Clamp vidG,
                           outIdx + 2 := toUint8Clamp vidB,
                           outIdx + 3 := 255]
            in if isSegmented \<and> (vizMode s = ''fill'' \<or> vizMode s = ''both'') then
                 (let blend = fillOpacity s
                  in out1[outIdx := toUint8Clamp (jadd (jmul vidR (jsub (Num 1) blend)) (jmul (fillRGB ! 0) blend)),
                          outIdx + 1 := toUint8Clamp (jadd (jmul vidG (jsub (Num 1) blend)) (jmul (fillRGB ! 1) blend)),
                          outIdx + 2 := toUint8Clamp (jadd (jmul vidB (jsub (Num 1) blend)) (jmul (fillRGB ! 2) blend))])
               else out1))"

text \<open>
  \<^verbatim>\<open>createImageData\<close> gives a zeroed buffer of four bytes for each canvas pixel; the two
  loops then run over the rows and, within a row, over the columns.
\<close>

definition composite ::
  "style_settings \<Rightarrow> byte list \<Rightarrow> byte list \<Rightarrow> nat \<Rightarrow> nat \<Rightarrow> nat \<Rightarrow> nat \<Rightarrow> byte list" where
  "composite s maskData videoData width height cw ch =
     (let fillRGB = hexToRGB (fillColor s);
          bgRGB = hexToRGB (bgColor s)
      in foldl (\<lambda>out y.
                  foldl (pixelStep s maskData videoData fillRGB bgRGB width height cw ch y)
                    out [0..<cw])
           (replicate (cw * ch * 4) 0) [0..<ch])"

section \<open>Outline\<close>

text \<open>
  One turn of the inner neighbour loop of \<^verbatim>\<open>drawOutline\<close>. Both neighbour loops carry the
  guard \<^verbatim>\<open>!isEdge\<close>, so once the flag is set no further turn does anything.
\<close>

definition edgeStep :: "byte list \<Rightarrow> nat \<Rightarrow> nat \<Rightarrow> nat \<Rightarrow> nat \<Rightarrow> bool \<Rightarrow> int \<times> int \<Rightarrow> bool" where
  "edgeStep maskData maskWidth maskHeight x y isEdge d =
     (if isEdge then True
      else
        let dy = fst d; dx = snd d; nx = int x + dx; ny = int y + dy
        in if 0 \<le> nx \<and> nx < int maskWidth \<and> 0 \<le> ny \<and> ny < int maskHeight
           then (if jeq (readU8 maskData (ny * int maskWidth + nx)) (Num 0) then True else isEdge)
           else isEdge)"

text \<open>Whether \<^verbatim>\<open>drawOutline\<close> paints cell \<open>(x, y)\<close>.\<close>

definition isEdgeCell :: "byte list \<Rightarrow> nat \<Rightarrow> nat \<Rightarrow> nat \<Rightarrow> nat \<Rightarrow> bool" where
  "isEdgeCell maskData maskWidth maskHeight x y =
     (jeq (readU8 maskData (int (y * maskWidth + x))) (Num 1) \<and>
      foldl (edgeStep maskData maskWidth maskHeight x y) False kernelOffsets)"

text \<open>A call \<^verbatim>\<open>ctx.fillRect(x, y, w, h)\<close> with the fill colour set just before it.\<close>

record fill_call =
  fc_color :: "jsnum list"
  fc_x :: jsnum
  fc_y :: jsnum
  fc_w :: jsnum
  fc_h :: jsnum

definition outlineRect :: "renderer \<Rightarrow> nat \<Rightarrow> nat \<Rightarrow> jsnum list \<Rightarrow> nat \<Rightarrow> nat \<Rightarrow> fill_call" where
  "outlineRect r maskWidth maskHeight color x y =
     (let scaleX = jdiv (Num (of_nat (canvasWidth r))) (Num (of_nat maskWidth));
          scaleY = jdiv (Num (of_nat (canvasHeight r))) (Num (of_nat maskHeight))
      in \<lparr> fc_color = color,
           fc_x = jmul (Num (of_nat x)) scaleX,
           fc_y = jmul (Num (of_nat y)) scaleY,
           fc_w = jmax scaleX (outlineThickness (settings r)),
           fc_h = jmax scaleY (outlineThickness (settings r)) \<rparr>)"

text \<open>\<^verbatim>\<open>drawOutline\<close>: the rectangles it fills, in the order of the calls.\<close>

definition drawOutline :: "renderer \<Rightarrow> byte list \<Rightarrow> nat \<Rightarrow> nat \<Rightarrow> jsnum list \<Rightarrow> fill_call list" where
  "drawOutline r maskData maskWidth maskHeight color =
     foldl (\<lambda>calls y.
              foldl (\<lambda>calls x.
                       if isEdgeCell maskData maskWidth maskHeight x y
                       then calls @ [outlineRect r maskWidth maskHeight color x y]
                       else calls)
                calls [0..<maskWidth])
       [] [0..<maskHeight]"

text \<open>
  The edge rule in the words of the specification: the cell is 1 and one of its eight
  neighbours inside the mask is 0.
\<close>

definition neighbours8 :: "(int \<times> int) list" where
  "neighbours8 = [(- 1, - 1), (- 1, 0), (- 1, 1), (0, - 1), (0, 1), (1, - 1), (1, 0), (1, 1)]"

definition specEdge :: "byte list \<Rightarrow> nat \<Rightarrow> nat \<Rightarrow> nat \<Rightarrow> nat \<Rightarrow> bool" where
  "specEdge maskData maskWidth maskHeight x y =
     (maskData ! (y * maskWidth + x) = 1 \<and>
      list_ex (\<lambda>d. 0 \<le> int x + snd d \<and> int x + snd d < int maskWidth \<and>
                   0 \<le> int y + fst d \<and> int y + fst d < int maskHeight \<and>
                   maskData ! nat ((int y + fst d) * int maskWidth + (int x + snd d)) = 0)
        neighbours8)"

section \<open>Drawing a frame's segmentation\<close>

text \<open>
  The segmentation object of the detector, with its fields \<^verbatim>\<open>data\<close>, \<^verbatim>\<open>width\<close> and
  \<^verbatim>\<open>height\<close>.
\<close>

record segmentation =
  seg_data :: "byte list"
  seg_width :: nat
  seg_height :: nat

record frame_output =
  outputData :: "byte list"
  outlineCalls :: "fill_call list"

datatype dom_error = IndexSizeError

text \<open>
  \<^verbatim>\<open>drawSegmentation(video, segmentation)\<close>. \<open>None\<close> stands for a segmentation that is
  \<^verbatim>\<open>null\<close> or has no \<^verbatim>\<open>data\<close>. \<open>videoData\<close> is what \<^verbatim>\<open>getImageData\<close> returns after the video
  has been drawn onto the offscreen canvas at mask resolution; \<^verbatim>\<open>getImageData\<close> and
  \<^verbatim>\<open>createImageData\<close> throw on an empty rectangle. The result is the renderer afterwards
  and either the error thrown, or nothing (the early return), or the buffer handed to
  \<^verbatim>\<open>putImageData\<close> with the outline rectangles filled over it.
\<close>

definition drawSegmentation ::
  "renderer \<Rightarrow> byte list \<Rightarrow> segmentation option \<Rightarrow> renderer \<times> (dom_error + frame_output option)" where
  "drawSegmentation r videoData seg =
     (case seg of
        None \<Rightarrow> (r, Inr None)
      | Some sg \<Rightarrow>
          let pm = processMask r (seg_data sg) (seg_width sg) (seg_height sg);
              r1 = fst pm;
              maskData = snd pm;
              outlineRGB = hexToRGB (outlineColor (settings r1))
          in if seg_width sg = 0 \<or> seg_height sg = 0 then (r1, Inl IndexSizeError)
             else if canvasWidth r1 = 0 \<or> canvasHeight r1 = 0 then (r1, Inl IndexSizeError)
             else
               (r1, Inr (Some
                  \<lparr> outputData = composite (settings r1) maskData videoData (seg_width sg) (seg_height sg)
                                   (canvasWidth r1) (canvasHeight r1),
                    outlineCalls =
                      (if vizMode (settings r1) = ''outline'' \<or> vizMode (settings r1) = ''both''
                       then drawOutline r1 maskData (seg_width sg) (seg_height sg) outlineRGB
                       else []) \<rparr>)))"

section \<open>Notions used to state the properties\<close>

text \<open>The mask cell that output pixel \<open>(x, y)\<close> reads: \<^verbatim>\<open>maskIdx\<close> of the pixel loop.\<close>

definition maskIndex :: "nat \<Rightarrow> nat \<Rightarrow> nat \<Rightarrow> nat \<Rightarrow> nat \<Rightarrow> nat \<Rightarrow> int" where
  "maskIndex width height cw ch x y =
     \<lfloor>ddiv (real y) (ddiv (real ch) (real height))\<rfloor> * int width +
     \<lfloor>ddiv (real x) (ddiv (real cw) (real width))\<rfloor>"

text \<open>A channel blended toward the fill colour, as stored in the output buffer.\<close>

definition blendChannel :: "style_settings \<Rightarrow> jsnum \<Rightarrow> jsnum \<Rightarrow> byte" where
  "blendChannel s vid fill =
     toUint8Clamp (jadd (jmul vid (jsub (Num 1) (fillOpacity s))) (jmul fill (fillOpacity s)))"

text \<open>The four bytes that the loop body leaves in the output buffer for pixel \<open>(x, y)\<close>.\<close>

definition pixelValue ::
  "style_settings \<Rightarrow> byte list \<Rightarrow> byte list \<Rightarrow> jsnum list \<Rightarrow> jsnum list \<Rightarrow>
   nat \<Rightarrow> nat \<Rightarrow> nat \<Rightarrow> nat \<Rightarrow> nat \<Rightarrow> nat \<Rightarrow> byte list" where
  "pixelValue s maskData videoData fillRGB bgRGB width height cw ch y x =
     (if jeq (readU8 maskData (maskIndex width height cw ch x y)) (Num 1) then
        (if vizMode s = ''fill'' \<or> vizMode s = ''both''
         then [blendChannel s (readU8 videoData (maskIndex width height cw ch x y * 4)) (fillRGB ! 0),
               blendChannel s (readU8 videoData (maskIndex width height cw ch x y * 4 + 1)) (fillRGB ! 1),
               blendChannel s (readU8 videoData (maskIndex width height cw ch x y * 4 + 2)) (fillRGB ! 2),
               255]
         else [toUint8Clamp (readU8 videoData (maskIndex width height cw ch x y * 4)),
               toUint8Clamp (readU8 videoData (maskIndex width height cw ch x y * 4 + 1)),
               toUint8Clamp (readU8 videoData (maskIndex width height cw ch x y * 4 + 2)),
               255])
      else if bgReplace s
        then [toUint8Clamp (bgRGB ! 0), toUint8Clamp (bgRGB ! 1), toUint8Clamp (bgRGB ! 2), 255]
        else [toUint8Clamp (readU8 videoData (maskIndex width height cw ch x y * 4)),
              toUint8Clamp (readU8 videoData (maskIndex width height cw ch x y * 4 + 1)),
              toUint8Clamp (readU8 videoData (maskIndex width height cw ch x y * 4 + 2)),
              255])"

text \<open>Four bytes stored at pixel number \<open>k\<close> of a buffer.\<close>

definition writePixel :: "byte list \<Rightarrow> nat \<Rightarrow> byte list \<Rightarrow> byte list" where
  "writePixel out k vs =
     out[k * 4 := vs ! 0, k * 4 + 1 := vs ! 1, k * 4 + 2 := vs ! 2, k * 4 + 3 := vs ! 3]"

text \<open>
  Temporal smoothing fed the same mask on every frame: the renderer and the returned mask
  after frame \<open>n\<close>, counting from 0.
\<close>

fun smoothFrames :: "renderer \<Rightarrow> byte list \<Rightarrow> nat \<Rightarrow> nat \<Rightarrow> nat \<Rightarrow> renderer \<times> byte list" where
  "smoothFrames r m width height 0 = smoothMask r m width height"
| "smoothFrames r m width height (Suc n) =
     smoothMask (fst (smoothFrames r m width height n)) m width height"

text \<open>A sequence of calls of \<^verbatim>\<open>updateSettings\<close> and \<^verbatim>\<open>applyPreset\<close>.\<close>

datatype settings_op = Update partial_settings | Preset string

fun applyOp :: "style_settings \<Rightarrow> settings_op \<Rightarrow> style_settings" where
  "applyOp s (Update p) = updateSettings s p"
| "applyOp s (Preset key) = fst (applyPreset s key)"

definition runOps :: "style_settings \<Rightarrow> settings_op list \<Rightarrow> style_settings" where
  "runOps s ops = foldl applyOp s ops"

text \<open>An opacity in \<open>[0, 1]\<close>; a smoothing strength that is a non-negative integer.\<close>

fun opacityInRange :: "jsnum \<Rightarrow> bool" where
  "opacityInRange (Num v) = (0 \<le> v \<and> v \<le> 1)"
| "opacityInRange NaN = False"

fun smoothingInRange :: "jsnum \<Rightarrow> bool" where
  "smoothingInRange (Num v) = (0 \<le> v \<and> v = of_int \<lfloor>v\<rfloor>)"
| "smoothingInRange NaN = False"

text \<open>The call supplies no opacity or smoothing outside these ranges.\<close>

fun suppliesInRange :: "settings_op \<Rightarrow> bool" where
  "suppliesInRange (Update p) =
     ((case p_fillOpacity p of None \<Rightarrow> True | Some v \<Rightarrow> opacityInRange v) \<and>
      (case p_smoothing p of None \<Rightarrow> True | Some v \<Rightarrow> smoothingInRange v))"
| "suppliesInRange (Preset key) = True"

definition settingsInRange :: "style_settings \<Rightarrow> bool" where
  "settingsInRange s = (opacityInRange (fillOpacity s) \<and> smoothingInRange (smoothing s))"

text \<open>The numbers a \<^verbatim>\<open>Float32Array\<close> cell can hold, infinities apart.\<close>

definition isFloat32 :: "real \<Rightarrow> bool" where
  "isFloat32 x = (f32 x = x \<and> \<bar>x\<bar> < 2 ^ 128)"

text \<open>
  The blend of one cell in \<^verbatim>\<open>smoothMask\<close>; the same on numbers, for the factor \<open>F\<close>; and, for
  a history of numbers, the history and the mask that one frame of blending leaves.
\<close>

definition blendCell :: "jsnum \<Rightarrow> jsnum \<Rightarrow> byte \<Rightarrow> jsnum" where
  "blendCell factor p c = jadd (jmul p factor) (jmul (byteNum c) (jsub (Num 1) factor))"

definition blendReal :: "real \<Rightarrow> real \<Rightarrow> byte \<Rightarrow> real" where
  "blendReal F h c = dadd (dmul h F) (dmul (real (unat c)) (dsub 1 F))"

definition stepHist :: "real \<Rightarrow> byte list \<Rightarrow> real list \<Rightarrow> real list" where
  "stepHist F m hs = map2 (\<lambda>h c. f32 (dbl (blendReal F h c))) hs m"

definition threshHist :: "real \<Rightarrow> byte list \<Rightarrow> real list \<Rightarrow> byte list" where
  "threshHist F m hs =
     map2 (\<lambda>h c. if dbl (5 / 10) < dbl (blendReal F h c) then 1 else 0) hs m"

text \<open>The output buffer of a call of \<^verbatim>\<open>drawSegmentation\<close> that drew one.\<close>

definition drawnBuffer :: "renderer \<times> (dom_error + frame_output option) \<Rightarrow> byte list option" where
  "drawnBuffer res =
     (case snd res of
        Inl e \<Rightarrow> None
      | Inr None \<Rightarrow> None
      | Inr (Some fo) \<Rightarrow> Some (outputData fo))"

section \<open>Example inputs\<close>

text \<open>A renderer on a canvas of one pixel, with the default settings but viz mode "fill".\<close>

definition fillRenderer :: renderer where
  "fillRenderer = (newRenderer 1 1)\<lparr>settings := defaultSettings\<lparr>vizMode := ''fill''\<rparr>\<rparr>"

text \<open>A canvas of two pixels in a row, with background replace on and viz mode "outline".\<close>

definition outlineRenderer :: renderer where
  "outlineRenderer =
     (newRenderer 2 1)\<lparr>settings := defaultSettings\<lparr>vizMode := ''outline'', bgReplace := True\<rparr>\<rparr>"

text \<open>
  A canvas of 18 pixels in a row over a mask of 14 cells of which cell 6 alone is
  segmented, with background replace on, viz mode "outline" and an orange background.
  Cell \<open>k\<close> of the source frame is the pixel \<open>(10 + k, 20 + k, 30 + k)\<close>.
\<close>

definition wideRenderer :: renderer where
  "wideRenderer =
     (newRenderer 18 1)\<lparr>settings :=
        defaultSettings\<lparr>vizMode := ''outline'', bgReplace := True, bgColor := ''#ff8000''\<rparr>\<rparr>"

definition mask14 :: segmentation where
  "mask14 = \<lparr> seg_data = [0, 0, 0, 0, 0, 0, 1, 0, 0, 0, 0, 0, 0, 0],
               seg_width = 14, seg_height = 1 \<rparr>"

definition video14 :: "byte list" where
  "video14 =
     [10, 20, 30, 255, 11, 21, 31, 255, 12, 22, 32, 255, 13, 23, 33, 255, 14, 24,
      34, 255, 15, 25, 35, 255, 16, 26, 36, 255, 17, 27, 37, 255, 18, 28, 38, 255,
      19, 29, 39, 255, 20, 30, 40, 255, 21, 31, 41, 255, 22, 32, 42, 255, 23, 33,
      43, 255]"

definition onePixelMask :: segmentation where
  "onePixelMask = \<lparr> seg_data = [1], seg_width = 1, seg_height = 1 \<rparr>"

definition grayPixel :: "byte list" where
  "grayPixel = [100, 100, 100, 255]"

text \<open>
  Renderers with smoothing 0, 6, 10 and 5; the second has no history yet, the others
  hold one of one or two cells.
\<close>

definition zeroSmoothingRenderer :: renderer where
  "zeroSmoothingRenderer =
     (newRenderer 2 1)\<lparr>settings := defaultSettings\<lparr>smoothing := Num 0\<rparr>,
                       prevMask := Some [Num 1, Num 1]\<rparr>"

definition smoothSix :: renderer where
  "smoothSix = (newRenderer 2 1)\<lparr>settings := defaultSettings\<lparr>smoothing := Num 6\<rparr>\<rparr>"

definition stuckRenderer :: renderer where
  "stuckRenderer =
     (newRenderer 1 1)\<lparr>settings := defaultSettings\<lparr>smoothing := Num 10\<rparr>, prevMask := Some [Num 0]\<rparr>"

definition halfRenderer :: renderer where
  "halfRenderer =
     (newRenderer 1 1)\<lparr>settings := defaultSettings\<lparr>smoothing := Num 5\<rparr>, prevMask := Some [Num 0]\<rparr>"

text \<open>Three settings calls with every supplied opacity and smoothing in range.\<close>

definition exampleOps :: "settings_op list" where
  "exampleOps =
     [Update (noSettings\<lparr>p_fillOpacity := Some (Num (9 / 10)), p_smoothing := Some (Num 7)\<rparr>),
      Preset ''E'', Update (noSettings\<lparr>p_bgReplace := Some True\<rparr>)]"

section \<open>Auxiliary facts\<close>

subsection \<open>Rounding\<close>

lemma expUp_bounds:
  "1 \<le> x \<Longrightarrow> 2 powi (expUp x e - e) \<le> x \<and> x < 2 powi (expUp x e - e + 1)"
proof (induction x e rule: expUp.induct)
  case (1 x e)
  show ?case
  proof (cases "x < 2")
    case True
    then show ?thesis using "1.prems" by (simp add: expUp.simps [of x e])
  next
    case False
    then have h: "1 \<le> x / 2" by simp
    have IH: "2 powi (expUp (x / 2) (e + 1) - (e + 1)) \<le> x / 2"
      "x / 2 < 2 powi (expUp (x / 2) (e + 1) - (e + 1) + 1)"
      using "1.IH" [OF False h] by simp_all
    have eq: "expUp x e = expUp (x / 2) (e + 1)" using False by (simp add: expUp.simps [of x e])
    have p: "2 powi (k + 1) = 2 * (2 powi k :: real)" for k
      by (simp add: power_int_add)
    have "2 powi (expUp x e - e) = 2 * (2 powi (expUp (x / 2) (e + 1) - (e + 1)) :: real)"
      unfolding eq using p [of "expUp (x / 2) (e + 1) - (e + 1)"] by (simp add: algebra_simps)
    moreover have "2 powi (expUp x e - e + 1) = 2 * (2 powi (expUp (x / 2) (e + 1) - (e + 1) + 1) :: real)"
      unfolding eq using p [of "expUp (x / 2) (e + 1) - (e + 1) + 1"] by (simp add: algebra_simps)
    ultimately show ?thesis using IH by simp
  qed
qed

lemma expDown_bounds:
  "0 < x \<Longrightarrow> x < 2 \<Longrightarrow> 2 powi (expDown x e - e) \<le> x \<and> x < 2 powi (expDown x e - e + 1)"
proof (induction x e rule: expDown.induct)
  case (1 x e)
  show ?case
  proof (cases "1 \<le> x")
    case True
    then show ?thesis using "1.prems" by (simp add: expDown.simps [of x e])
  next
    case False
    then have c: "\<not> (1 \<le> x \<or> x \<le> 0)" using "1.prems" by simp
    have h: "0 < 2 * x" "2 * x < 2" using "1.prems" False by simp_all
    have IH: "2 powi (expDown (2 * x) (e - 1) - (e - 1)) \<le> 2 * x"
      "2 * x < 2 powi (expDown (2 * x) (e - 1) - (e - 1) + 1)"
      using "1.IH" [OF c h] by simp_all
    have eq: "expDown x e = expDown (2 * x) (e - 1)" using c by (simp add: expDown.simps [of x e])
    have p: "2 powi (k + 1) = 2 * (2 powi k :: real)" for k
      by (simp add: power_int_add)
    have "2 powi (expDown (2 * x) (e - 1) - (e - 1)) = 2 * (2 powi (expDown x e - e) :: real)"
      unfolding eq using p [of "expDown (2 * x) (e - 1) - e"] by (simp add: algebra_simps)
    moreover have "2 powi (expDown (2 * x) (e - 1) - (e - 1) + 1) = 2 * (2 powi (expDown x e - e + 1) :: real)"
      unfolding eq using p [of "expDown (2 * x) (e - 1) - e + 1"] by (simp add: algebra_simps)
    ultimately show ?thesis using IH by simp
  qed
qed

lemma binexp_bounds:
  assumes "0 < x"
  shows "2 powi binexp x \<le> x" "x < 2 powi (binexp x + 1)"
proof -
  have "2 powi binexp x \<le> x \<and> x < 2 powi (binexp x + 1)"
  proof (cases "1 \<le> x")
    case True
    then show ?thesis using expUp_bounds [OF True, of 0] by (simp add: binexp_def)
  next
    case False
    then show ?thesis using expDown_bounds [OF assms, of 0] by (simp add: binexp_def)
  qed
  then show "2 powi binexp x \<le> x" "x < 2 powi (binexp x + 1)" by simp_all
qed

lemma powi_neg_nat: "(2 :: real) powi (- int n) = 1 / 2 ^ n"
  by (simp add: power_int_minus inverse_eq_divide)

lemma roundEven_error: "\<bar>real_of_int (roundEven r) - r\<bar> \<le> 1 / 2"
proof -
  define f where "f = \<lfloor>r\<rfloor>"
  have b: "real_of_int f \<le> r" "r < real_of_int f + 1" unfolding f_def by linarith+
  consider "r - real_of_int f < 1 / 2" | "1 / 2 < r - real_of_int f" | "r - real_of_int f = 1 / 2"
    by linarith
  then show ?thesis
  proof cases
    case 1
    then have "roundEven r = f" by (simp add: roundEven_def f_def)
    then show ?thesis using 1 b by simp
  next
    case 2
    then have "roundEven r = f + 1" by (simp add: roundEven_def f_def)
    then show ?thesis using 2 b by simp
  next
    case 3
    then have "roundEven r = f \<or> roundEven r = f + 1" by (simp add: roundEven_def f_def Let_def)
    then show ?thesis using 3 b by auto
  qed
qed

lemma roundEven_of_int [simp]: "roundEven (of_int k) = k"
  by (simp add: roundEven_def)

lemma roundTo_error:
  "\<bar>roundTo p emin x - x\<bar> \<le> \<bar>x\<bar> * 2 powi (- int p) + 2 powi (emin - int p)"
proof (cases "x = 0")
  case True
  then show ?thesis by (simp add: roundTo_def)
next
  case False
  define e where "e = max (binexp \<bar>x\<bar>) emin"
  define q :: real where "q = 2 powi (e - int p + 1)"
  have q: "0 < q" by (simp add: q_def)
  have r: "roundTo p emin x = of_int (roundEven (x / q)) * q"
    using False by (simp add: roundTo_def e_def q_def Let_def)
  have "\<bar>of_int (roundEven (x / q)) * q - x\<bar> = \<bar>of_int (roundEven (x / q)) - x / q\<bar> * q"
  proof -
    have "of_int (roundEven (x / q)) * q - x = (of_int (roundEven (x / q)) - x / q) * q"
      using q by (simp add: field_simps)
    then show ?thesis using q by (simp add: abs_mult)
  qed
  also have "\<dots> \<le> 1 / 2 * q"
    using roundEven_error [of "x / q"] q by (intro mult_right_mono) simp_all
  finally have err: "\<bar>roundTo p emin x - x\<bar> \<le> q / 2" unfolding r by simp
  have pe: "2 powi e \<le> \<bar>x\<bar> + (2 powi emin :: real)"
  proof (cases "emin \<le> binexp \<bar>x\<bar>")
    case True
    then have "e = binexp \<bar>x\<bar>" by (simp add: e_def)
    then show ?thesis using binexp_bounds(1) [of "\<bar>x\<bar>"] False
      by (simp add: add_increasing2)
  next
    case False
    then have "e = emin" by (simp add: e_def)
    then show ?thesis by simp
  qed
  have "q = 2 powi e * 2 powi (- int p) * 2"
    unfolding q_def using power_int_add [of "2 :: real" "e + (- int p)" 1]
      power_int_add [of "2 :: real" e "- int p"] by simp
  then have "q / 2 = 2 powi e * 2 powi (- int p)" by simp
  also have "\<dots> \<le> (\<bar>x\<bar> + 2 powi emin) * 2 powi (- int p)"
    using pe by (intro mult_right_mono) simp_all
  also have "\<dots> = \<bar>x\<bar> * 2 powi (- int p) + 2 powi (emin - int p)"
    using power_int_add [of "2 :: real" emin "- int p"] by (simp add: algebra_simps)
  finally show ?thesis using err by linarith
qed

lemma roundTo_scaled:
  assumes "\<bar>k\<bar> < 2 ^ p" "emin - int p + 1 \<le> j"
  shows "roundTo p emin (of_int k * 2 powi j) = of_int k * 2 powi j"
proof (cases "k = 0")
  case True
  then show ?thesis by (simp add: roundTo_def)
next
  case False
  define x :: real where "x = of_int k * 2 powi j"
  define e where "e = binexp \<bar>x\<bar>"
  have ax: "\<bar>x\<bar> = \<bar>real_of_int k\<bar> * 2 powi j" by (simp add: x_def abs_mult)
  have pos: "0 < \<bar>x\<bar>" using False by (simp add: x_def)
  have lo: "2 powi e \<le> \<bar>x\<bar>" unfolding e_def using binexp_bounds(1) [OF pos] .
  have "\<bar>real_of_int k\<bar> < 2 ^ p"
    using assms(1) by (metis of_int_abs of_int_less_iff of_int_numeral of_int_power)
  then have "\<bar>x\<bar> < 2 ^ p * 2 powi j" unfolding ax by (intro mult_strict_right_mono) simp_all
  also have "\<dots> = 2 powi (int p + j)" by (simp add: power_int_add)
  finally have up: "2 powi e < (2 :: real) powi (int p + j)" using lo by linarith
  have ep: "e < int p + j"
  proof (rule ccontr)
    assume "\<not> e < int p + j"
    then have "int p + j \<le> e" by simp
    then have "(2 :: real) powi (int p + j) \<le> 2 powi e" by (intro power_int_increasing) simp_all
    then show False using up by simp
  qed
  define d where "d = max e emin - int p + 1"
  have dj: "d \<le> j" using ep assms(2) by (simp add: d_def)
  define n where "n = nat (j - d)"
  have "(2 :: real) powi j = 2 powi (d + int n)" using dj by (simp add: n_def)
  also have "\<dots> = 2 powi d * 2 ^ n" by (simp add: power_int_add)
  finally have pj: "(2 :: real) powi j = 2 powi d * 2 ^ n" .
  have "x / 2 powi d = real_of_int (k * 2 ^ n)" by (simp add: x_def pj)
  then have re: "roundEven (x / 2 powi d) = k * 2 ^ n" by (simp only: roundEven_of_int)
  have "roundTo p emin x = of_int (roundEven (x / 2 powi d)) * 2 powi d"
    using pos by (simp add: roundTo_def Let_def d_def e_def)
  also have "\<dots> = x" unfolding re by (simp add: x_def pj)
  finally show ?thesis unfolding x_def .
qed

lemma roundEven_bound:
  assumes "\<bar>r\<bar> < of_int N"
  shows "\<bar>roundEven r\<bar> \<le> N"
proof -
  have "roundEven r = \<lfloor>r\<rfloor> \<or> roundEven r = \<lfloor>r\<rfloor> + 1"
    by (simp add: roundEven_def Let_def)
  moreover have "\<lfloor>r\<rfloor> < N" using assms by (simp add: floor_less_iff abs_less_iff)
  moreover have "- N \<le> \<lfloor>r\<rfloor>" using assms by (simp add: le_floor_iff abs_less_iff)
  ultimately show ?thesis by auto
qed

lemma roundTo_idem:
  assumes "0 < p"
  shows "roundTo p emin (roundTo p emin x) = roundTo p emin x"
proof (cases "x = 0")
  case True
  then show ?thesis by (simp add: roundTo_def)
next
  case False
  define e where "e = max (binexp \<bar>x\<bar>) emin"
  define d where "d = e - int p + 1"
  define k where "k = roundEven (x / 2 powi d)"
  have pos: "0 < \<bar>x\<bar>" using False by simp
  have r: "roundTo p emin x = of_int k * 2 powi d"
    using False by (simp add: roundTo_def Let_def e_def d_def k_def)
  have "\<bar>x\<bar> < 2 powi (binexp \<bar>x\<bar> + 1)" by (rule binexp_bounds(2) [OF pos])
  also have "\<dots> \<le> 2 powi (e + 1)" by (intro power_int_increasing) (simp_all add: e_def)
  also have "\<dots> = 2 powi d * 2 ^ p"
    using power_int_add [of "2 :: real" d "int p"] by (simp add: d_def)
  finally have "\<bar>x\<bar> / 2 powi d < 2 ^ p" by (simp add: field_simps)
  then have "\<bar>x / 2 powi d\<bar> < real_of_int (2 ^ p)" by simp
  then have kb: "\<bar>k\<bar> \<le> 2 ^ p" unfolding k_def by (rule roundEven_bound)
  have dmin: "emin - int p + 1 \<le> d" by (simp add: d_def e_def)
  show ?thesis
  proof (cases "\<bar>k\<bar> < 2 ^ p")
    case True
    then show ?thesis unfolding r by (rule roundTo_scaled [OF _ dmin])
  next
    case False
    then have ke: "\<bar>k\<bar> = 2 ^ p" using kb by simp
    obtain n where n: "p = Suc n" using assms by (cases p) simp_all
    define k' where "k' = (if 0 \<le> k then 2 ^ n else - (2 ^ n) :: int)"
    have kk: "k = 2 * k'" using ke n by (auto simp: k'_def abs_if split: if_splits)
    have small: "\<bar>k'\<bar> < 2 ^ p" by (simp add: k'_def n)
    have "real_of_int k * 2 powi d = real_of_int k' * 2 powi (d + 1)"
      using power_int_add [of "2 :: real" d 1] by (simp add: kk)
    moreover have "roundTo p emin (real_of_int k' * 2 powi (d + 1)) = real_of_int k' * 2 powi (d + 1)"
      using dmin by (intro roundTo_scaled [OF small]) simp
    ultimately show ?thesis unfolding r by simp
  qed
qed

lemma dbl_idem [simp]: "dbl (dbl x) = dbl x"
  unfolding dbl_def by (rule roundTo_idem) simp

lemma dbl_of_int: "\<bar>k\<bar> < 2 ^ 53 \<Longrightarrow> dbl (of_int k) = of_int k"
  using roundTo_scaled [of k 53 "- 1022" 0] by (simp add: dbl_def)

lemma dbl_of_nat: "n < 2 ^ 53 \<Longrightarrow> dbl (real n) = real n"
  using dbl_of_int [of "int n"] by simp

lemma dbl_half_int: "\<bar>k\<bar> < 2 ^ 53 \<Longrightarrow> dbl (of_int k / 2) = of_int k / 2"
  using roundTo_scaled [of k 53 "- 1022" "- 1"] by (simp add: dbl_def power_int_minus)

lemma dbl_0 [simp]: "dbl 0 = 0"
  by (simp add: dbl_def roundTo_def)

lemma dbl_error: "\<bar>dbl x - x\<bar> \<le> \<bar>x\<bar> / 2 ^ 53 + 1 / 2 ^ 1075"
  using roundTo_error [of 53 "- 1022" x] powi_neg_nat [of 53] powi_neg_nat [of 1075]
  by (simp add: dbl_def)

lemma f32_error: "\<bar>f32 x - x\<bar> \<le> \<bar>x\<bar> / 2 ^ 24 + 1 / 2 ^ 150"
  using roundTo_error [of 24 "- 126" x] powi_neg_nat [of 24] powi_neg_nat [of 150]
  by (simp add: f32_def)

lemma dbl_1 [simp]: "dbl 1 = 1"
  using dbl_of_nat [of 1] by simp

lemma ddiv_zero [simp]: "ddiv 0 b = 0"
  by (simp add: ddiv_def)

lemma small_powers: "1 / 2 ^ 53 \<le> (1 :: real) / 1000000" "1 / 2 ^ 1075 \<le> (1 :: real) / 1000000"
  "1 / 2 ^ 24 \<le> (1 :: real) / 1000000" "1 / 2 ^ 150 \<le> (1 :: real) / 1000000"
proof -
  have b: "(1000000 :: real) \<le> 2 ^ 20" by simp
  have "(2 :: real) ^ 20 \<le> 2 ^ n" if "20 \<le> n" for n
    using that by (intro power_increasing) simp_all
  then have "(1000000 :: real) \<le> 2 ^ n" if "20 \<le> n" for n
    using that b by (meson order_trans)
  then have "1 / 2 ^ n \<le> (1 :: real) / 1000000" if "20 \<le> n" for n
    using that by (intro divide_left_mono) simp_all
  then show "1 / 2 ^ 53 \<le> (1 :: real) / 1000000" "1 / 2 ^ 1075 \<le> (1 :: real) / 1000000"
    "1 / 2 ^ 24 \<le> (1 :: real) / 1000000" "1 / 2 ^ 150 \<le> (1 :: real) / 1000000"
    by simp_all
qed

lemma dbl_near: "\<bar>dbl x - x\<bar> \<le> (\<bar>x\<bar> + 1) / 1000000"
proof -
  have "\<bar>x\<bar> / 2 ^ 53 = \<bar>x\<bar> * (1 / 2 ^ 53)" by simp
  also have "\<dots> \<le> \<bar>x\<bar> * (1 / 1000000)"
    using small_powers(1) by (intro mult_left_mono) simp_all
  finally show ?thesis using dbl_error [of x] small_powers(2) by (simp add: add_divide_distrib)
qed

lemma abs_bounds: "\<bar>a - x\<bar> \<le> (c :: real) \<Longrightarrow> x - c \<le> a \<and> a \<le> x + c"
  by linarith

lemma dbl_between:
  "x - (\<bar>x\<bar> + 1) / 1000000 \<le> dbl x" "dbl x \<le> x + (\<bar>x\<bar> + 1) / 1000000"
  using abs_bounds [OF dbl_near [of x]] by blast+

lemma f32_near: "\<bar>f32 x - x\<bar> \<le> (\<bar>x\<bar> + 1) / 1000000"
proof -
  have "\<bar>x\<bar> / 2 ^ 24 = \<bar>x\<bar> * (1 / 2 ^ 24)" by simp
  also have "\<dots> \<le> \<bar>x\<bar> * (1 / 1000000)"
    using small_powers(3) by (intro mult_left_mono) simp_all
  finally show ?thesis using f32_error [of x] small_powers(4) by (simp add: add_divide_distrib)
qed

lemma dbl_numerals:
  "dbl 2 = 2" "dbl 3 = 3" "dbl 5 = 5" "dbl 6 = 6" "dbl 10 = 10" "dbl 50 = 50" "dbl 100 = 100"
  "dbl 200 = 200"
  "dbl 255 = 255" "dbl (- 1) = - 1" "dbl (1 / 2) = 1 / 2" "dbl (255 / 2) = 255 / 2"
  "dbl (355 / 2) = 355 / 2"
  using dbl_of_int [of 2] dbl_of_int [of 3] dbl_of_int [of 5] dbl_of_int [of 6]
    dbl_of_int [of 10] dbl_of_int [of 50]
    dbl_of_int [of 100] dbl_of_int [of 200] dbl_of_int [of 255] dbl_of_int [of "- 1"]
    dbl_half_int [of 1] dbl_half_int [of 255] dbl_half_int [of 355]
  by simp_all

subsection \<open>The pixel loop\<close>

lemma length_writePixel [simp]: "length (writePixel out k vs) = length out"
  by (simp add: writePixel_def)

lemma nth_writePixel:
  "i < length out \<Longrightarrow>
   writePixel out k vs ! i = (if i div 4 = k then vs ! (i mod 4) else out ! i)"
proof (cases "i div 4 = k")
  case True
  assume i: "i < length out"
  have "i = k * 4 + i mod 4" using True by (metis div_mult_mod_eq mult.commute)
  moreover have "i mod 4 < 4" by simp
  then have "i mod 4 = 0 \<or> i mod 4 = 1 \<or> i mod 4 = 2 \<or> i mod 4 = 3" by arith
  ultimately show ?thesis using True i
    by (auto simp: writePixel_def nth_list_update)
next
  case False
  assume i: "i < length out"
  have "i \<noteq> k * 4" "i \<noteq> k * 4 + 1" "i \<noteq> k * 4 + 2" "i \<noteq> k * 4 + 3"
    using False by auto
  then show ?thesis using False i by (simp add: writePixel_def nth_list_update)
qed

lemma row_fold_length [simp]:
  "length (foldl (\<lambda>out x. writePixel out (b + x) (f x)) out [0..<n]) = length out"
  by (induction n) simp_all

lemma row_fold_nth:
  "i < length out \<Longrightarrow>
   foldl (\<lambda>out x. writePixel out (b + x) (f x)) out [0..<n] ! i =
     (if b \<le> i div 4 \<and> i div 4 < b + n then f (i div 4 - b) ! (i mod 4) else out ! i)"
proof (induction n)
  case 0
  then show ?case by auto
next
  case (Suc n)
  let ?prev = "foldl (\<lambda>out x. writePixel out (b + x) (f x)) out [0..<n]"
  have step: "foldl (\<lambda>out x. writePixel out (b + x) (f x)) out [0..<Suc n] ! i =
      (if i div 4 = b + n then f n ! (i mod 4) else ?prev ! i)"
    using Suc.prems by (simp add: nth_writePixel)
  show ?case
  proof (cases "i div 4 = b + n")
    case True
    then show ?thesis unfolding step by simp
  next
    case False
    then have "(b \<le> i div 4 \<and> i div 4 < b + Suc n) = (b \<le> i div 4 \<and> i div 4 < b + n)"
      by arith
    then show ?thesis unfolding step using False Suc.IH [OF Suc.prems] by simp
  qed
qed

lemma grid_fold_length [simp]:
  "length (foldl (\<lambda>out y. foldl (\<lambda>out x. writePixel out (y * cw + x) (f y x)) out [0..<cw]) out [0..<m]) = length out"
  by (induction m) simp_all

lemma div_mod_row:
  fixes k :: nat
  assumes "m * cw \<le> k" "k < m * cw + cw"
  shows "k div cw = m" "k mod cw = k - m * cw"
proof -
  obtain r where r: "k = r + m * cw" "r < cw"
    using assms by (metis add.commute le_add_diff_inverse nat_add_left_cancel_less)
  then show "k div cw = m" "k mod cw = k - m * cw" by simp_all
qed

lemma grid_fold_nth:
  "i < length out \<Longrightarrow>
   foldl (\<lambda>out y. foldl (\<lambda>out x. writePixel out (y * cw + x) (f y x)) out [0..<cw]) out [0..<m] ! i =
     (if i div 4 < m * cw then f (i div 4 div cw) (i div 4 mod cw) ! (i mod 4) else out ! i)"
proof (induction m)
  case 0
  then show ?case by simp
next
  case (Suc m)
  let ?prev = "foldl (\<lambda>out y. foldl (\<lambda>out x. writePixel out (y * cw + x) (f y x)) out [0..<cw]) out [0..<m]"
  have len: "i < length ?prev" using Suc.prems by simp
  have step: "foldl (\<lambda>out y. foldl (\<lambda>out x. writePixel out (y * cw + x) (f y x)) out [0..<cw]) out [0..<Suc m] ! i =
      (if m * cw \<le> i div 4 \<and> i div 4 < m * cw + cw then f m (i div 4 - m * cw) ! (i mod 4) else ?prev ! i)"
    using row_fold_nth [OF len, of "m * cw" "f m" cw] by simp
  show ?case
  proof (cases "m * cw \<le> i div 4 \<and> i div 4 < m * cw + cw")
    case True
    then show ?thesis unfolding step using div_mod_row [of m cw "i div 4"] by simp
  next
    case False
    then have "(i div 4 < Suc m * cw) = (i div 4 < m * cw)" by auto
    then show ?thesis unfolding step using False Suc.IH [OF Suc.prems] by simp
  qed
qed


lemma update4_overwrite3:
  assumes "i \<noteq> j" "i \<noteq> k" "j \<noteq> k" "l \<noteq> i" "l \<noteq> j" "l \<noteq> k"
  shows "out[i := a, j := b, k := c, l := d, i := a', j := b', k := c'] =
         out[i := a', j := b', k := c', l := (d::'a)]"
proof (rule nth_equalityI)
  fix n
  assume "n < length (out[i := a, j := b, k := c, l := d, i := a', j := b', k := c'])"
  then have n: "n < length out" by simp
  show "out[i := a, j := b, k := c, l := d, i := a', j := b', k := c'] ! n =
        out[i := a', j := b', k := c', l := d] ! n"
    using assms n
    by (cases "n = i"; cases "n = j"; cases "n = k"; cases "n = l") (simp_all add: nth_list_update)
qed simp

lemma pixel_branches:
  "(if bg then
      (if seg then
         (if fl then out[k * 4 := a0, k * 4 + 1 := a1, k * 4 + 2 := a2]
          else out[k * 4 := v0, k * 4 + 1 := v1, k * 4 + 2 := v2])
         [k * 4 + 3 := 255]
       else out[k * 4 := b0, k * 4 + 1 := b1, k * 4 + 2 := b2, k * 4 + 3 := 255])
    else
      (if seg \<and> fl
       then out[k * 4 := v0, k * 4 + 1 := v1, k * 4 + 2 := v2, k * 4 + 3 := 255,
                k * 4 := a0, k * 4 + 1 := a1, k * 4 + 2 := a2]
       else out[k * 4 := v0, k * 4 + 1 := v1, k * 4 + 2 := v2, k * 4 + 3 := 255])) =
   writePixel out k
     (if seg then (if fl then [a0, a1, a2, 255] else [v0, v1, v2, 255])
      else if bg then [b0, b1, b2, 255] else [v0, v1, v2, (255::byte)])"
proof -
  have "out[k * 4 := v0, k * 4 + 1 := v1, k * 4 + 2 := v2, k * 4 + 3 := 255,
            k * 4 := a0, k * 4 + 1 := a1, k * 4 + 2 := a2] =
        out[k * 4 := a0, k * 4 + 1 := a1, k * 4 + 2 := a2, k * 4 + 3 := 255]"
    by (rule update4_overwrite3) simp_all
  then show ?thesis by (simp add: writePixel_def)
qed

lemma pixelStep_writePixel:
  "pixelStep s maskData videoData fillRGB bgRGB width height cw ch y =
   (\<lambda>out x. writePixel out (y * cw + x)
      (pixelValue s maskData videoData fillRGB bgRGB width height cw ch y x))"
  unfolding pixelStep_def pixelValue_def Let_def blendChannel_def maskIndex_def
  by (intro ext) (rule pixel_branches)

lemma composite_length: "length (composite s maskData videoData width height cw ch) = cw * ch * 4"
  by (simp add: composite_def pixelStep_writePixel Let_def)

lemma composite_nth:
  assumes "i < cw * ch * 4"
  shows "composite s maskData videoData width height cw ch ! i =
         pixelValue s maskData videoData (hexToRGB (fillColor s)) (hexToRGB (bgColor s))
           width height cw ch (i div 4 div cw) (i div 4 mod cw) ! (i mod 4)"
proof -
  have "i div 4 < ch * cw" using assms by (simp add: mult.commute less_mult_imp_div_less)
  then show ?thesis
    using assms grid_fold_nth [of i "replicate (cw * ch * 4) 0" cw
      "pixelValue s maskData videoData (hexToRGB (fillColor s)) (hexToRGB (bgColor s)) width height cw ch" ch]
    by (simp add: composite_def pixelStep_writePixel Let_def)
qed

lemma composite_pixel:
  assumes "x < cw" "y < ch" "c < 4"
  shows "composite s maskData videoData width height cw ch ! ((y * cw + x) * 4 + c) =
         pixelValue s maskData videoData (hexToRGB (fillColor s)) (hexToRGB (bgColor s))
           width height cw ch y x ! c"
proof -
  have "y * cw + x < ch * cw"
  proof -
    have "y * cw + x < y * cw + cw" using assms(1) by simp
    also have "\<dots> = Suc y * cw" by simp
    also have "\<dots> \<le> ch * cw" using assms(2) by (intro mult_le_mono1) simp
    finally show ?thesis .
  qed
  then have lt: "(y * cw + x) * 4 + c < cw * ch * 4" using assms(3) by (simp add: mult.commute)
  have d: "((y * cw + x) * 4 + c) div 4 = y * cw + x" using assms(3) by simp
  have m: "((y * cw + x) * 4 + c) mod 4 = c" using assms(3) by (metis mod_mult_self3 mod_less)
  have "(y * cw + x) div cw = y" "(y * cw + x) mod cw = x" using assms(1) by simp_all
  then show ?thesis using composite_nth [OF lt, of s maskData videoData width height] d m by simp
qed



lemma smoothMask_settings: "settings (fst (smoothMask r m w h)) = settings r"
  by (simp add: smoothMask_def Let_def split: option.splits)

lemma smoothMask_canvas:
  "canvasWidth (fst (smoothMask r m w h)) = canvasWidth r"
  "canvasHeight (fst (smoothMask r m w h)) = canvasHeight r"
  by (simp_all add: smoothMask_def Let_def split: option.splits)

lemma processMask_fst: "fst (processMask r m w h) = fst (smoothMask r m w h)"
  by (simp add: processMask_def Let_def)

lemma drawSegmentation_draws:
  assumes "0 < seg_width sg" "0 < seg_height sg" "0 < canvasWidth r" "0 < canvasHeight r"
  shows "drawSegmentation r videoData (Some sg) =
     (fst (processMask r (seg_data sg) (seg_width sg) (seg_height sg)),
      Inr (Some \<lparr> outputData =
                    composite (settings r)
                      (snd (processMask r (seg_data sg) (seg_width sg) (seg_height sg)))
                      videoData (seg_width sg) (seg_height sg) (canvasWidth r) (canvasHeight r),
                  outlineCalls =
                    (if vizMode (settings r) = ''outline'' \<or> vizMode (settings r) = ''both''
                     then drawOutline (fst (processMask r (seg_data sg) (seg_width sg) (seg_height sg)))
                            (snd (processMask r (seg_data sg) (seg_width sg) (seg_height sg)))
                            (seg_width sg) (seg_height sg) (hexToRGB (outlineColor (settings r)))
                     else []) \<rparr>))"
  using assms
  by (simp add: drawSegmentation_def Let_def processMask_fst smoothMask_settings smoothMask_canvas)

lemma pixelValue_alpha:
  "pixelValue s maskData videoData fillRGB bgRGB width height cw ch y x ! 3 = 255"
  by (simp add: pixelValue_def)

lemma toUint8Clamp_nat:
  assumes "n \<le> 255"
  shows "toUint8Clamp (Num (real n)) = word_of_nat n"
proof -
  have d: "dbl (real n) = real n" using assms by (intro dbl_of_nat) simp
  show ?thesis
  proof (cases "n = 0 \<or> n = 255")
    case True
    then show ?thesis by (auto simp: toUint8Clamp_def d)
  next
    case False
    then have "0 < real n" "\<not> 255 \<le> real n" using assms by auto
    moreover have "\<lfloor>real n\<rfloor> = int n" by simp
    ultimately show ?thesis by (simp add: toUint8Clamp_def Let_def d)
  qed
qed

lemma toUint8Clamp_byteNum: "toUint8Clamp (byteNum b) = b"
proof -
  have "unat b < 256" using unsigned_less [of b] by simp
  then have "unat b \<le> 255" by simp
  then have "toUint8Clamp (Num (real (unat b))) = word_of_nat (unat b)"
    by (rule toUint8Clamp_nat)
  then show ?thesis unfolding byteNum_def by simp
qed

lemma hexToRGB_white: "hexToRGB ''#ffffff'' = [Num 255, Num 255, Num 255]"
  by (simp add: hexToRGB_def slice_def parseInt16_def isStrWhiteSpace_def isHexDigit_def
      hexDigitValue_def)

lemma hexToRGB_black: "hexToRGB ''#000000'' = [Num 0, Num 0, Num 0]"
  by (simp add: hexToRGB_def slice_def parseInt16_def isStrWhiteSpace_def isHexDigit_def
      hexDigitValue_def)

lemma no_blur_at_two: "jfloor (jdiv (Num 2) (Num 3)) = Num 0"
proof -
  have d: "ddiv 2 3 = dbl (2 / 3)" by (simp add: ddiv_def dbl_numerals)
  have "0 \<le> dbl (2 / 3)" "dbl (2 / 3) < 1"
    using dbl_between [of "2 / 3"] by simp_all
  then have "\<lfloor>dbl (2 / 3)\<rfloor> = 0" by (simp add: floor_eq_iff)
  then show ?thesis by (simp add: d dbl_numerals)
qed

lemma processMask_first_frame:
  "prevMask r = None \<Longrightarrow> smoothing (settings r) = Num 2 \<Longrightarrow>
   processMask r m w h = (r\<lparr>prevMask := Some (map byteNum m)\<rparr>, m)"
  by (simp add: processMask_def smoothMask_def blurMask_def Let_def no_blur_at_two
      del: jfloor.simps jdiv.simps)

lemma blend_white_half:
  "fillOpacity s = Num (5 / 10) \<Longrightarrow> blendChannel s (Num 100) (Num 255) = 178"
  by (simp add: blendChannel_def dadd_def dsub_def dmul_def dbl_numerals toUint8Clamp_def)

lemma fillRenderer_simps:
  "settings fillRenderer = defaultSettings\<lparr>vizMode := ''fill''\<rparr>"
  "prevMask fillRenderer = None" "canvasWidth fillRenderer = 1" "canvasHeight fillRenderer = 1"
  by (simp_all add: fillRenderer_def newRenderer_def)

subsection \<open>Colours and stored bytes\<close>

lemma readU8_in_range:
  "0 \<le> i \<Longrightarrow> i < int (length a) \<Longrightarrow> toUint8Clamp (readU8 a i) = a ! nat i"
  by (simp add: readU8_def toUint8Clamp_byteNum)

lemma hexDigit_not_special:
  assumes "isHexDigit c"
  shows "\<not> isStrWhiteSpace c" "c \<noteq> CHR ''-''" "c \<noteq> CHR ''+''" "c \<noteq> CHR ''x''" "c \<noteq> CHR ''X''"
    "hexDigitValue c \<le> 15"
  using assms by (auto simp: isHexDigit_def isStrWhiteSpace_def hexDigitValue_def Let_def)

lemma parseInt16_two_digits:
  assumes "isHexDigit a" "isHexDigit b"
  shows "parseInt16 [a, b] = Num (real (16 * hexDigitValue a + hexDigitValue b))"
  using assms hexDigit_not_special [OF assms(1)] hexDigit_not_special [OF assms(2)]
  by (simp add: parseInt16_def)

lemma hexToRGB_wellformed:
  assumes "list_all isHexDigit [a, b, c, d, e, f]"
  shows "map toUint8Clamp (hexToRGB [CHR ''#'', a, b, c, d, e, f]) =
         [word_of_nat (16 * hexDigitValue a + hexDigitValue b),
          word_of_nat (16 * hexDigitValue c + hexDigitValue d),
          word_of_nat (16 * hexDigitValue e + hexDigitValue f)]"
proof -
  have le: "16 * hexDigitValue u + hexDigitValue v \<le> 255" if "isHexDigit u" "isHexDigit v" for u v
    using hexDigit_not_special(6) [OF that(1)] hexDigit_not_special(6) [OF that(2)] by simp
  have "toUint8Clamp (parseInt16 [u, v]) = word_of_nat (16 * hexDigitValue u + hexDigitValue v)"
    if "isHexDigit u" "isHexDigit v" for u v
    using parseInt16_two_digits [OF that] toUint8Clamp_nat [OF le [OF that]] by simp
  then show ?thesis using assms by (simp add: hexToRGB_def slice_def)
qed

lemma outlineRenderer_simps:
  "settings outlineRenderer = defaultSettings\<lparr>vizMode := ''outline'', bgReplace := True\<rparr>"
  "prevMask outlineRenderer = None" "canvasWidth outlineRenderer = 2"
  "canvasHeight outlineRenderer = 1"
  by (simp_all add: outlineRenderer_def newRenderer_def)

section \<open>Settings and presets\<close>




lemma preset_in_range:
  assumes "presets key = Some p"
  shows "p_smoothing p = None" "\<exists>v. p_fillOpacity p = Some v \<and> opacityInRange v"
  using assms by (auto simp: presets_def mkPreset_def noSettings_def split: if_splits)

lemma applyOp_in_range:
  assumes "settingsInRange s" "suppliesInRange op"
  shows "settingsInRange (applyOp s op)"
proof (cases op)
  case (Update p)
  then show ?thesis using assms
    by (auto simp: settingsInRange_def updateSettings_def assign_def orElse_def split: option.splits)
next
  case (Preset key)
  show ?thesis
  proof (cases "presets key")
    case None
    then show ?thesis using assms Preset
      by (auto simp: applyPreset_def presetsGet_def)
  next
    case (Some p)
    then show ?thesis using assms Preset preset_in_range [OF Some]
      by (auto simp: settingsInRange_def applyPreset_def presetsGet_def assign_def orElse_def)
  qed
qed

lemma runOps_in_range:
  "settingsInRange s \<Longrightarrow> list_all suppliesInRange ops \<Longrightarrow> settingsInRange (runOps s ops)"
  unfolding runOps_def
  by (induction ops arbitrary: s) (simp_all add: applyOp_in_range)

lemma defaultSettings_in_range: "settingsInRange defaultSettings"
  by (simp add: settingsInRange_def defaultSettings_def)

text \<open>
  Claim C9: applying preset \<open>E\<close> to settings whose viz mode is "outline" and whose fill
  opacity is 0.9 gives viz mode "both" and fill opacity 0.4 and keeps the labels flag,
  the background-replace flag, the smoothing strength, the colour mode, the background
  colour and the segmentation flag; and for every key of the preset table, the five
  fields the preset lists (viz mode, fill colour, outline colour, fill opacity, outline
  thickness) take the preset's values while the six others keep theirs.
\<close>

theorem applyPreset_frame:
  "(let s' = fst (applyPreset (s\<lparr>vizMode := ''outline'', fillOpacity := Num (9 / 10)\<rparr>) ''E'')
    in vizMode s' = ''both'' \<and> fillOpacity s' = Num (4 / 10) \<and>
       showLabels s' = showLabels s \<and> bgReplace s' = bgReplace s \<and>
       smoothing s' = smoothing s \<and> colorMode s' = colorMode s \<and>
       bgColor s' = bgColor s \<and> segmentationMode s' = segmentationMode s) \<and>
   (\<forall>key p. presets key = Some p \<longrightarrow>
      (let s' = fst (applyPreset s key)
       in p_vizMode p = Some (vizMode s') \<and> p_fillColor p = Some (fillColor s') \<and>
          p_outlineColor p = Some (outlineColor s') \<and>
          p_fillOpacity p = Some (fillOpacity s') \<and>
          p_outlineThickness p = Some (outlineThickness s') \<and>
          colorMode s' = colorMode s \<and> bgColor s' = bgColor s \<and>
          showLabels s' = showLabels s \<and> segmentationMode s' = segmentationMode s \<and>
          bgReplace s' = bgReplace s \<and> smoothing s' = smoothing s))"
  by (auto simp: applyPreset_def presetsGet_def presets_def mkPreset_def noSettings_def
      assign_def orElse_def Let_def split: if_splits)

theorem applyPreset_frame_witness:
  "presets ''R'' = Some (mkPreset ''#ff0000'' ''#ff0000'' (Num (3 / 10)) (Num 5) ''outline'') \<and>
   vizMode (fst (applyPreset defaultSettings ''R'')) = ''outline'' \<and>
   fillOpacity (fst (applyPreset defaultSettings ''R'')) = Num (3 / 10) \<and>
   smoothing (fst (applyPreset defaultSettings ''R'')) = Num 2 \<and>
   bgReplace (fst (applyPreset defaultSettings ''R'')) = False"
proof -
  have p: "presets ''R'' = Some (mkPreset ''#ff0000'' ''#ff0000'' (Num (3 / 10)) (Num 5) ''outline'')"
    by (simp add: presets_def)
  have "let s' = fst (applyPreset defaultSettings ''R'')
        in p_vizMode (mkPreset ''#ff0000'' ''#ff0000'' (Num (3 / 10)) (Num 5) ''outline'') = Some (vizMode s') \<and>
           p_fillOpacity (mkPreset ''#ff0000'' ''#ff0000'' (Num (3 / 10)) (Num 5) ''outline'') = Some (fillOpacity s') \<and>
           bgReplace s' = bgReplace defaultSettings \<and> smoothing s' = smoothing defaultSettings"
    using applyPreset_frame [of defaultSettings] p unfolding Let_def by blast
  then show ?thesis
    using p by (simp add: Let_def mkPreset_def noSettings_def defaultSettings_def)
qed




text \<open>
  Claim C7, as the specification states it, has out-of-range values clamped.
  \<^verbatim>\<open>updateSettings\<close> stores what it is given: after an update with fill opacity \<open>-1\<close> the
  settings hold \<open>-1\<close>, the blend of a channel 100 toward a fill channel 0 is 200, which
  no opacity in \<open>[0, 1]\<close> produces, and an update with smoothing \<open>-3\<close> leaves \<open>-3\<close>.
\<close>

theorem updateSettings_does_not_clamp:
  "fillOpacity (updateSettings defaultSettings (noSettings\<lparr>p_fillOpacity := Some (Num (- 1))\<rparr>))
     = Num (- 1) \<and>
   \<not> opacityInRange
       (fillOpacity (updateSettings defaultSettings (noSettings\<lparr>p_fillOpacity := Some (Num (- 1))\<rparr>))) \<and>
   blendChannel (updateSettings defaultSettings (noSettings\<lparr>p_fillOpacity := Some (Num (- 1))\<rparr>))
     (Num 100) (Num 0) = 200 \<and>
   smoothing (updateSettings defaultSettings (noSettings\<lparr>p_smoothing := Some (Num (- 3))\<rparr>))
     = Num (- 3) \<and>
   \<not> smoothingInRange
       (smoothing (updateSettings defaultSettings (noSettings\<lparr>p_smoothing := Some (Num (- 3))\<rparr>)))"
  by (simp add: updateSettings_def assign_def orElse_def noSettings_def defaultSettings_def
      blendChannel_def toUint8Clamp_def dadd_def dsub_def dmul_def dbl_numerals)

text \<open>
  Claim C7, amended: \<^verbatim>\<open>updateSettings\<close> stores a supplied fill opacity or smoothing
  strength unchanged; and after any sequence of \<^verbatim>\<open>updateSettings\<close> and \<^verbatim>\<open>applyPreset\<close> calls
  on the default settings in which every supplied fill opacity lies in \<open>[0, 1]\<close> and every
  supplied smoothing strength is a non-negative integer, the fill opacity lies in
  \<open>[0, 1]\<close> and the smoothing strength is a non-negative integer.
\<close>

theorem settings_in_range_when_supplied_in_range:
  "(list_all suppliesInRange ops \<longrightarrow>
      opacityInRange (fillOpacity (runOps defaultSettings ops)) \<and>
      smoothingInRange (smoothing (runOps defaultSettings ops))) \<and>
   fillOpacity (updateSettings s (p\<lparr>p_fillOpacity := Some v\<rparr>)) = v \<and>
   smoothing (updateSettings s (p\<lparr>p_smoothing := Some v\<rparr>)) = v"
  using runOps_in_range [OF defaultSettings_in_range, of ops]
  by (simp add: settingsInRange_def updateSettings_def assign_def orElse_def)

theorem settings_in_range_when_supplied_in_range_witness:
  "list_all suppliesInRange exampleOps \<and>
   opacityInRange (fillOpacity (runOps defaultSettings exampleOps)) \<and>
   smoothingInRange (smoothing (runOps defaultSettings exampleOps))"
proof -
  have ok: "list_all suppliesInRange exampleOps"
    by (simp add: exampleOps_def noSettings_def)
  show ?thesis
    using settings_in_range_when_supplied_in_range [of exampleOps] ok by blast
qed

section \<open>Mask processing\<close>

lemma smooth_loop:
  assumes "length prev = length cur" "length sm = length cur" "k \<le> length cur"
  shows "length (fst (foldl (smoothStep f cur) (prev, sm) [0..<k])) = length cur \<and>
         length (snd (foldl (smoothStep f cur) (prev, sm) [0..<k])) = length cur \<and>
         (\<forall>i<length cur.
            fst (foldl (smoothStep f cur) (prev, sm) [0..<k]) ! i =
              (if i < k then storeF32 (blendCell f (prev ! i) (cur ! i)) else prev ! i) \<and>
            snd (foldl (smoothStep f cur) (prev, sm) [0..<k]) ! i =
              (if i < k then (if jgt (blendCell f (prev ! i) (cur ! i)) (Num (5 / 10)) then 1 else 0)
               else sm ! i))"
  using assms(3)
proof (induction k)
  case 0
  then show ?case using assms(1,2) by simp
next
  case (Suc k)
  let ?st = "foldl (smoothStep f cur) (prev, sm) [0..<k]"
  have IH: "length (fst ?st) = length cur" "length (snd ?st) = length cur"
    "\<And>i. i < length cur \<Longrightarrow> fst ?st ! i = (if i < k then storeF32 (blendCell f (prev ! i) (cur ! i)) else prev ! i)"
    "\<And>i. i < length cur \<Longrightarrow> snd ?st ! i =
        (if i < k then (if jgt (blendCell f (prev ! i) (cur ! i)) (Num (5 / 10)) then 1 else 0) else sm ! i)"
    using Suc by simp_all
  have k: "k < length cur" using Suc.prems by simp
  have rd: "readF32 (fst ?st) (int k) = prev ! k" "readU8 cur (int k) = byteNum (cur ! k)"
    using k IH(1) IH(3) [OF k] by (simp_all add: readF32_def readU8_def)
  have step: "foldl (smoothStep f cur) (prev, sm) [0..<Suc k] =
      ((fst ?st)[k := storeF32 (blendCell f (prev ! k) (cur ! k))],
       (snd ?st)[k := (if jgt (blendCell f (prev ! k) (cur ! k)) (Num (5 / 10)) then 1 else 0)])"
    by (simp add: smoothStep_def Let_def rd blendCell_def)
  show ?case unfolding step using IH k
    by (auto simp: nth_list_update)
qed

lemma smoothMask_blend:
  assumes "prevMask r = Some prev" "\<not> jeq (smoothing (settings r)) (Num 0)"
    "length prev = length m"
  shows "smoothMask r m w h =
     (r\<lparr>prevMask := Some (map2 (\<lambda>p c. storeF32 (blendCell (jdiv (smoothing (settings r)) (Num 10)) p c))
                            prev m)\<rparr>,
      map2 (\<lambda>p c. if jgt (blendCell (jdiv (smoothing (settings r)) (Num 10)) p c) (Num (5 / 10))
                   then 1 else 0) prev m)"
proof -
  let ?f = "jdiv (smoothing (settings r)) (Num 10)"
  let ?res = "foldl (smoothStep ?f m) (prev, replicate (length m) 0) [0..<length m]"
  have L: "length (fst ?res) = length m \<and> length (snd ?res) = length m \<and>
         (\<forall>i<length m.
            fst ?res ! i = (if i < length m then storeF32 (blendCell ?f (prev ! i) (m ! i)) else prev ! i) \<and>
            snd ?res ! i =
              (if i < length m then (if jgt (blendCell ?f (prev ! i) (m ! i)) (Num (5 / 10)) then 1 else 0)
               else replicate (length m) 0 ! i))"
    by (rule smooth_loop) (simp_all add: assms(3))
  have 1: "fst ?res = map2 (\<lambda>p c. storeF32 (blendCell ?f p c)) prev m"
    using L assms(3) by (intro nth_equalityI) simp_all
  have 2: "snd ?res = map2 (\<lambda>p c. if jgt (blendCell ?f p c) (Num (5 / 10)) then 1 else 0) prev m"
    using L assms(3) by (intro nth_equalityI) simp_all
  show ?thesis
    using assms by (simp add: smoothMask_def Let_def 1 2)
qed

lemma smoothMask_length: "length (snd (smoothMask r m w h)) = length m"
proof (cases "prevMask r")
  case None
  then show ?thesis by (simp add: smoothMask_def)
next
  case (Some prev)
  show ?thesis
  proof (cases "jeq (smoothing (settings r)) (Num 0) \<or> length prev \<noteq> length m")
    case True
    then show ?thesis using Some by (auto simp: smoothMask_def)
  next
    case False
    then show ?thesis using smoothMask_blend [OF Some, of m w h] by simp
  qed
qed

lemma blurPass_length: "length (blurPass w h data) = length data"
proof -
  have cell: "length (blurCell data w h y nd x) = length nd" for y nd x
    by (simp add: blurCell_def Let_def)
  have row: "length (foldl (blurCell data w h y) nd xs) = length nd" for y nd xs
    by (induction xs arbitrary: nd) (simp_all add: cell)
  have "length (foldl (\<lambda>nd y. foldl (blurCell data w h y) nd [0..<w]) nd ys) = length nd"
    for nd ys
    by (induction ys arbitrary: nd) (simp_all add: row)
  then show ?thesis by (simp add: blurPass_def)
qed

lemma blurMask_length: "length (blurMask m w h it) = length m"
proof -
  have "length ((blurPass w h ^^ n) data) = length data" for n data
    by (induction n) (simp_all add: blurPass_length)
  then show ?thesis by (simp add: blurMask_def Let_def)
qed

lemma processMask_length: "length (snd (processMask r m w h)) = length m"
  by (simp add: processMask_def Let_def blurMask_length smoothMask_length)

lemma blendCell_Num: "blendCell (Num F) (Num p) c = Num (blendReal F p c)"
  by (simp add: blendCell_def blendReal_def byteNum_def)

lemma length_stepHist [simp]: "length hs = length m \<Longrightarrow> length (stepHist F m hs) = length m"
  by (simp add: stepHist_def)

lemma length_stepHist_pow [simp]:
  "length hs = length m \<Longrightarrow> length ((stepHist F m ^^ n) hs) = length m"
  by (induction n) simp_all

lemma smoothMask_num:
  assumes "prevMask r = Some (map Num hs)" "smoothing (settings r) = Num s" "dbl s \<noteq> 0"
    "length hs = length m"
  shows "smoothMask r m w h =
     (r\<lparr>prevMask := Some (map Num (stepHist (ddiv s 10) m hs))\<rparr>, threshHist (ddiv s 10) m hs)"
proof -
  have f: "jdiv (smoothing (settings r)) (Num 10) = Num (ddiv s 10)"
    by (simp add: assms(2) dbl_numerals)
  have 1: "map2 (\<lambda>p c. storeF32 (blendCell (Num (ddiv s 10)) p c)) (map Num hs) m
           = map Num (stepHist (ddiv s 10) m hs)"
    using assms(4) by (intro nth_equalityI) (simp_all add: stepHist_def blendCell_Num)
  have 2: "map2 (\<lambda>p c. if jgt (blendCell (Num (ddiv s 10)) p c) (Num (5 / 10)) then 1 else 0)
             (map Num hs) m = threshHist (ddiv s 10) m hs"
    using assms(4) by (intro nth_equalityI) (simp_all add: threshHist_def blendCell_Num)
  have "smoothMask r m w h =
     (r\<lparr>prevMask := Some (map2 (\<lambda>p c. storeF32 (blendCell (jdiv (smoothing (settings r)) (Num 10)) p c))
                            (map Num hs) m)\<rparr>,
      map2 (\<lambda>p c. if jgt (blendCell (jdiv (smoothing (settings r)) (Num 10)) p c) (Num (5 / 10))
                   then 1 else 0) (map Num hs) m)"
    by (rule smoothMask_blend) (simp_all add: assms)
  then show ?thesis unfolding f 1 2 .
qed

lemma blend_of_zero_cell: "blendReal F h 0 = dmul h F"
  by (simp add: blendReal_def dadd_def dmul_def)

lemma six_tenths: "1 / 2 < dbl (6 / 10)" "dbl (6 / 10) < 1"
  using dbl_between [of "6 / 10"] by simp_all

lemma swapped_frames:
  "fst (smoothMask smoothSix [1, 1] w h) = smoothSix\<lparr>prevMask := Some [Num 1, Num 1]\<rparr>"
  "smoothMask (smoothSix\<lparr>prevMask := Some [Num 1, Num 1]\<rparr>) [0, 0] w h =
     (smoothSix\<lparr>prevMask := Some [Num (f32 (dbl (6 / 10))), Num (f32 (dbl (6 / 10)))]\<rparr>, [1, 1])"
proof -
  let ?r = "smoothSix\<lparr>prevMask := Some [Num 1, Num 1]\<rparr>"
  show "fst (smoothMask smoothSix [1, 1] w h) = ?r"
    by (simp add: smoothMask_def smoothSix_def newRenderer_def byteNum_def)
  have b: "blendReal (ddiv 6 10) 1 0 = dbl (6 / 10)"
    by (simp add: blend_of_zero_cell dmul_def ddiv_def dbl_numerals)
  have "smoothMask ?r [0, 0] w h =
      (?r\<lparr>prevMask := Some (map Num (stepHist (ddiv 6 10) [0, 0] [1, 1]))\<rparr>,
       threshHist (ddiv 6 10) [0, 0] [1, 1])"
    by (rule smoothMask_num) (simp_all add: smoothSix_def newRenderer_def dbl_numerals)
  then show "smoothMask ?r [0, 0] w h =
     (smoothSix\<lparr>prevMask := Some [Num (f32 (dbl (6 / 10))), Num (f32 (dbl (6 / 10)))]\<rparr>, [1, 1])"
    using six_tenths(1) by (simp add: stepHist_def threshHist_def b dbl_numerals)
qed

lemma stored_six_tenths: "f32 (dbl (6 / 10)) \<noteq> 0"
proof -
  have "\<bar>f32 (dbl (6 / 10)) - dbl (6 / 10)\<bar> \<le> (\<bar>dbl (6 / 10)\<bar> + 1) / 1000000" by (rule f32_near)
  then show ?thesis using six_tenths by auto
qed

text \<open>
  Claim C2: with smoothing 0 the mask pipeline of \<^verbatim>\<open>drawSegmentation\<close> returns any mask of
  any dimensions unchanged: \<^verbatim>\<open>smoothMask\<close> stores the mask as the new history and returns
  it, \<open>floor(0 / 3)\<close> is 0, and \<^verbatim>\<open>blurMask\<close> with 0 iterations returns its input.
\<close>

theorem smoothing_zero_passthrough:
  assumes "smoothing (settings r) = Num 0"
  shows "processMask r m w h = (r\<lparr>prevMask := Some (map byteNum m)\<rparr>, m) \<and>
         smoothMask r m w h = (r\<lparr>prevMask := Some (map byteNum m)\<rparr>, m) \<and>
         jfloor (jdiv (Num 0) (Num 3)) = Num 0 \<and>
         blurMask m w h (Num 0) = m"
  using assms
  by (simp add: processMask_def smoothMask_def blurMask_def Let_def dbl_numerals
      split: option.splits)

theorem smoothing_zero_passthrough_witness:
  "snd (processMask zeroSmoothingRenderer [1, 0] 2 1) = [1, 0]"
  using smoothing_zero_passthrough [of zeroSmoothingRenderer "[1, 0]" 2 1]
  by (simp add: zeroSmoothingRenderer_def newRenderer_def)

text \<open>
  Claim C6, as the specification states it, has the history reset whenever the mask's
  width and height differ from those of the history, also when they are swapped.
  \<^verbatim>\<open>smoothMask\<close> compares the two lengths only: after a frame with a mask of 2 by 1 cells,
  a mask of 1 by 2 cells is blended with the history under smoothing 6, and the mask
  returned is not the current one.
\<close>

theorem swapped_dimensions_blend:
  "(2 :: nat, 1 :: nat) \<noteq> (1, 2) \<and>
   prevMask (fst (smoothMask smoothSix [1, 1] 2 1)) = Some [Num 1, Num 1] \<and>
   snd (smoothMask (fst (smoothMask smoothSix [1, 1] 2 1)) [0, 0] 1 2) = [1, 1] \<and>
   snd (smoothMask (fst (smoothMask smoothSix [1, 1] 2 1)) [0, 0] 1 2) \<noteq> [0, 0] \<and>
   prevMask (fst (smoothMask (fst (smoothMask smoothSix [1, 1] 2 1)) [0, 0] 1 2))
     \<noteq> Some (map byteNum [0, 0])"
  using stored_six_tenths by (simp add: swapped_frames byteNum_def)

text \<open>
  Claim C6, amended: whenever the number of cells of the current mask differs from the
  length of the stored history buffer, \<^verbatim>\<open>smoothMask\<close> resets the history to the current
  mask and returns the current mask unchanged. Width and height are not compared: when
  the two lengths are equal and smoothing is not 0, every cell of the mask is blended
  with the history cell at the same index, whatever the width and height passed.
\<close>

theorem smoothMask_resets_on_length_change:
  "(prevMask r = Some prev \<and> length prev \<noteq> length m \<longrightarrow>
      smoothMask r m w h = (r\<lparr>prevMask := Some (map byteNum m)\<rparr>, m)) \<and>
   (prevMask r = Some prev \<and> length prev = length m \<and>
    \<not> jeq (smoothing (settings r)) (Num 0) \<longrightarrow>
      smoothMask r m w h =
        (r\<lparr>prevMask :=
             Some (map2 (\<lambda>p c. storeF32 (blendCell (jdiv (smoothing (settings r)) (Num 10)) p c))
                     prev m)\<rparr>,
         map2 (\<lambda>p c. if jgt (blendCell (jdiv (smoothing (settings r)) (Num 10)) p c) (Num (5 / 10))
                      then 1 else 0) prev m))"
  using smoothMask_blend [of r prev m w h] by (auto simp: smoothMask_def)

theorem smoothMask_resets_on_length_change_witness:
  "smoothMask (smoothSix\<lparr>prevMask := Some [Num 1, Num 1]\<rparr>) [0, 0, 0] 3 1 =
     (smoothSix\<lparr>prevMask := Some (map byteNum [0, 0, 0])\<rparr>, [0, 0, 0]) \<and>
   \<not> jeq (smoothing (settings smoothSix)) (Num 0) \<and>
   snd (smoothMask (smoothSix\<lparr>prevMask := Some [Num 1, Num 1]\<rparr>) [0, 0] 1 2) =
     map2 (\<lambda>p c. if jgt (blendCell (jdiv (Num 6) (Num 10)) p c) (Num (5 / 10)) then 1 else 0)
       [Num 1, Num 1] [0, 0]"
proof -
  let ?r = "smoothSix\<lparr>prevMask := Some [Num 1, Num 1]\<rparr>"
  have s: "smoothing (settings ?r) = Num 6" "smoothing (settings smoothSix) = Num 6"
    by (simp_all add: smoothSix_def newRenderer_def)
  have nz: "\<not> jeq (smoothing (settings ?r)) (Num 0)" "\<not> jeq (smoothing (settings smoothSix)) (Num 0)"
    unfolding s by (simp_all add: dbl_numerals)
  have p: "prevMask ?r = Some [Num 1, Num 1]" by simp
  have "smoothMask ?r [0, 0, 0] 3 1 = (?r\<lparr>prevMask := Some (map byteNum [0, 0, 0])\<rparr>, [0, 0, 0])"
    using smoothMask_resets_on_length_change [of ?r "[Num 1, Num 1]" "[0, 0, 0]" 3 1] p by simp
  moreover have "snd (smoothMask ?r [0, 0] 1 2) =
     map2 (\<lambda>p c. if jgt (blendCell (jdiv (Num 6) (Num 10)) p c) (Num (5 / 10)) then 1 else 0)
       [Num 1, Num 1] [0, 0]"
    using smoothMask_resets_on_length_change [of ?r "[Num 1, Num 1]" "[0, 0]" 1 2] p nz(1)
    unfolding s by simp
  ultimately show ?thesis using nz(2) by simp
qed

lemma smoothFrames_num:
  assumes "prevMask r = Some (map Num hs)" "smoothing (settings r) = Num s" "dbl s \<noteq> 0"
    "length hs = length m"
  shows "smoothFrames r m w h n =
     (r\<lparr>prevMask := Some (map Num ((stepHist (ddiv s 10) m ^^ Suc n) hs))\<rparr>,
      threshHist (ddiv s 10) m ((stepHist (ddiv s 10) m ^^ n) hs))"
proof (induction n)
  case 0
  show ?case using smoothMask_num [OF assms] by simp
next
  case (Suc n)
  let ?F = "ddiv s 10"
  let ?r = "r\<lparr>prevMask := Some (map Num ((stepHist ?F m ^^ Suc n) hs))\<rparr>"
  have "smoothMask ?r m w h =
      (?r\<lparr>prevMask := Some (map Num (stepHist ?F m ((stepHist ?F m ^^ Suc n) hs)))\<rparr>,
       threshHist ?F m ((stepHist ?F m ^^ Suc n) hs))"
    by (rule smoothMask_num) (simp_all add: assms del: funpow.simps)
  then show ?case using Suc by simp
qed

lemma smoothFrames_zero:
  assumes "smoothing (settings r) = Num 0"
  shows "smoothFrames r m w h n = (r\<lparr>prevMask := Some (map byteNum m)\<rparr>, m)"
proof (induction n)
  case 0
  show ?case using assms by (simp add: smoothMask_def split: option.splits)
next
  case (Suc n)
  show ?case using assms by (simp add: Suc smoothMask_def)
qed

lemma f32_0 [simp]: "f32 0 = 0"
  by (simp add: f32_def roundTo_def)

lemma stuck_frame: "smoothMask stuckRenderer [1] w h = (stuckRenderer, [0])"
proof -
  have F: "ddiv 10 10 = 1" by (simp add: ddiv_def dbl_numerals)
  have b: "blendReal 1 0 1 = 0" by (simp add: blendReal_def dadd_def dmul_def dsub_def)
  have "smoothMask stuckRenderer [1] w h =
      (stuckRenderer\<lparr>prevMask := Some (map Num (stepHist (ddiv 10 10) [1] [0]))\<rparr>,
       threshHist (ddiv 10 10) [1] [0])"
    by (rule smoothMask_num) (simp_all add: stuckRenderer_def newRenderer_def dbl_numerals)
  then show ?thesis
    by (simp add: F b stepHist_def threshHist_def dbl_numerals stuckRenderer_def)
qed

lemma stuck_frames: "smoothFrames stuckRenderer [1] w h n = (stuckRenderer, [0])"
  by (induction n) (simp_all add: stuck_frame)

lemma dbl_blendReal [simp]: "dbl (blendReal F h c) = blendReal F h c"
  by (simp add: blendReal_def dadd_def)

lemma blendReal_unfold:
  assumes "dbl F = F" "c = 0 \<or> c = 1"
  shows "blendReal F h c = dbl (dbl (dbl h * F) + real (unat c) * dbl (1 - F))"
  using assms by (auto simp: blendReal_def dadd_def dmul_def dsub_def)

lemma err_mono:
  fixes e a b :: real
  assumes "e \<le> (a + 1) / 1000000" "a \<le> b"
  shows "e \<le> (b + 1) / 1000000"
  using assms unfolding add_divide_distrib by linarith

lemma round_step:
  fixes r x t D :: real
  assumes "\<bar>r - x\<bar> \<le> (\<bar>x\<bar> + 1) / 1000000" "\<bar>x - t\<bar> \<le> D" "\<bar>t\<bar> \<le> 1"
  shows "\<bar>r - t\<bar> \<le> D + (D + 2) / 1000000"
proof -
  have "\<bar>x\<bar> \<le> D + 1" using assms(2,3) by linarith
  then have "\<bar>r - x\<bar> \<le> (D + 1 + 1) / 1000000" by (rule err_mono [OF assms(1)])
  then have "\<bar>r - x\<bar> \<le> (D + 2) / 1000000" by simp
  then show ?thesis using assms(2) by linarith
qed

lemma scaled_abs:
  fixes a F b c :: real
  assumes "0 \<le> F" "F \<le> c" "\<bar>a\<bar> \<le> b"
  shows "\<bar>a * F\<bar> \<le> b * c"
proof -
  have "\<bar>a * F\<bar> = \<bar>a\<bar> * F" using assms(1) by (simp add: abs_mult)
  also have "\<dots> \<le> b * c" using assms by (intro mult_mono) simp_all
  finally show ?thesis .
qed

lemma blend_step_bound:
  fixes F B h t x1 x3 x5 :: real
  assumes F: "0 \<le> F" "F \<le> 91 / 100" and FB: "\<bar>F + B - 1\<bar> \<le> 1 / 100000"
    and t: "t = 0 \<or> t = 1"
    and x1: "\<bar>x1 - h\<bar> \<le> (\<bar>h\<bar> + 1) / 1000000"
    and x3: "\<bar>x3 - x1 * F\<bar> \<le> (\<bar>x1 * F\<bar> + 1) / 1000000"
    and x5: "\<bar>x5 - (x3 + t * B)\<bar> \<le> (\<bar>x3 + t * B\<bar> + 1) / 1000000"
  shows "\<bar>x5 - t\<bar> \<le> 93 / 100 * \<bar>h - t\<bar> + 1 / 10000"
proof -
  define d where "d = \<bar>h - t\<bar>"
  define u where "u = (x1 - h) * F"
  define v where "v = (h - t) * F"
  define p where "p = x1 * F"
  define tF where "tF = t * F"
  define w where "w = t * (F + B - 1)"
  define x4 where "x4 = x3 + t * B"
  have d0: "0 \<le> d" by (simp add: d_def)
  have t1: "\<bar>t\<bar> \<le> 1" using t by auto
  have h: "\<bar>h\<bar> \<le> d + 1" unfolding d_def using t1 by linarith
  have e1: "\<bar>x1 - h\<bar> \<le> (d + 1 + 1) / 1000000" by (rule err_mono [OF x1 h])
  have F1: "F \<le> 1" using F(2) by simp
  have "\<bar>u\<bar> \<le> (d + 1 + 1) / 1000000 * 1" unfolding u_def by (rule scaled_abs [OF F(1) F1 e1])
  then have u: "\<bar>u\<bar> \<le> d / 1000000 + 2 / 1000000" by (simp add: add_divide_distrib)
  have hd: "\<bar>h - t\<bar> \<le> d" by (simp add: d_def)
  have v: "\<bar>v\<bar> \<le> d * (91 / 100)" unfolding v_def by (rule scaled_abs [OF F hd])
  have p: "p = u + v + tF" by (simp add: p_def u_def v_def tF_def algebra_simps)
  have tF: "0 \<le> tF" "tF \<le> 1" using t F by (auto simp: tF_def)
  have pt: "\<bar>p - tF\<bar> \<le> d * (91 / 100) + d / 1000000 + 2 / 1000000" using p u v by linarith
  have pa: "\<bar>p\<bar> \<le> d + 2" using pt tF d0 by linarith
  have "\<bar>x3 - p\<bar> \<le> (\<bar>p\<bar> + 1) / 1000000" using x3 by (simp add: p_def)
  then have "\<bar>x3 - p\<bar> \<le> (d + 2 + 1) / 1000000" using pa by (rule err_mono)
  then have x3p: "\<bar>x3 - p\<bar> \<le> d / 1000000 + 3 / 1000000" by (simp add: add_divide_distrib)
  have x3t: "\<bar>x3 - tF\<bar> \<le> d * (91 / 100) + 2 * (d / 1000000) + 5 / 1000000"
    using x3p pt by linarith
  have "w = 0 \<or> w = F + B - 1" using t by (auto simp: w_def)
  then have tb: "\<bar>w\<bar> \<le> 1 / 100000" using FB by auto
  have eq: "x4 - t = (x3 - tF) + w" by (simp add: x4_def tF_def w_def algebra_simps)
  have x4: "\<bar>x4 - t\<bar> \<le> 92 / 100 * d + 2 / 100000" using eq x3t tb d0 by linarith
  have "\<bar>x5 - x4\<bar> \<le> (\<bar>x4\<bar> + 1) / 1000000" using x5 by (simp add: x4_def)
  then have "\<bar>x5 - t\<bar> \<le> (92 / 100 * d + 2 / 100000) + ((92 / 100 * d + 2 / 100000) + 2) / 1000000"
    using x4 t1 by (rule round_step)
  then have "\<bar>x5 - t\<bar> \<le> 93 / 100 * d + 1 / 10000"
    unfolding add_divide_distrib using d0 by linarith
  then show ?thesis unfolding d_def .
qed

lemma factor_bounds:
  assumes "0 < k" "k < (10 :: nat)"
  shows "ddiv (real k) 10 = dbl (real k / 10)" "0 \<le> dbl (real k / 10)"
    "dbl (real k / 10) \<le> 91 / 100"
    "\<bar>dbl (real k / 10) + dbl (1 - dbl (real k / 10)) - 1\<bar> \<le> 1 / 100000"
proof -
  have "k < 2 ^ 53" using assms(2) by simp
  then show "ddiv (real k) 10 = dbl (real k / 10)"
    by (simp add: ddiv_def dbl_of_nat dbl_numerals)
  define q where "q = real k / 10"
  define F where "F = dbl q"
  define B where "B = dbl (1 - F)"
  have q: "1 / 10 \<le> q" "q \<le> 9 / 10" using assms by (simp_all add: q_def)
  have aq: "\<bar>q\<bar> \<le> 1" using q by linarith
  have "\<bar>F - q\<bar> \<le> (\<bar>q\<bar> + 1) / 1000000" unfolding F_def by (rule dbl_near)
  then have "\<bar>F - q\<bar> \<le> (1 + 1) / 1000000" using aq by (rule err_mono)
  then have Fq: "\<bar>F - q\<bar> \<le> 2 / 1000000" by simp
  have F0: "0 \<le> F" using Fq q by linarith
  have F9: "F \<le> 91 / 100" using Fq q by linarith
  show "0 \<le> dbl (real k / 10)" using F0 unfolding F_def q_def .
  show "dbl (real k / 10) \<le> 91 / 100" using F9 unfolding F_def q_def .
  have a1: "\<bar>1 - F\<bar> \<le> 1" using F0 F9 by linarith
  have "\<bar>B - (1 - F)\<bar> \<le> (\<bar>1 - F\<bar> + 1) / 1000000" unfolding B_def by (rule dbl_near)
  then have "\<bar>B - (1 - F)\<bar> \<le> (1 + 1) / 1000000" using a1 by (rule err_mono)
  then have "\<bar>B - (1 - F)\<bar> \<le> 2 / 1000000" by simp
  then have "\<bar>F + B - 1\<bar> \<le> 1 / 100000" by linarith
  then show "\<bar>dbl (real k / 10) + dbl (1 - dbl (real k / 10)) - 1\<bar> \<le> 1 / 100000"
    unfolding B_def F_def q_def .
qed

lemma blend_contracts:
  assumes k: "0 < k" "k < (10 :: nat)" and c: "c = 0 \<or> c = 1"
  shows "\<bar>blendReal (ddiv (real k) 10) h c - real (unat c)\<bar>
           \<le> 93 / 100 * \<bar>h - real (unat c)\<bar> + 1 / 10000"
    and "\<bar>f32 (dbl (blendReal (ddiv (real k) 10) h c)) - real (unat c)\<bar>
           \<le> 19 / 20 * \<bar>h - real (unat c)\<bar> + 1 / 1000"
proof -
  define F where "F = dbl (real k / 10)"
  define t where "t = real (unat c)"
  define d where "d = \<bar>h - t\<bar>"
  have d0: "0 \<le> d" by (simp add: d_def)
  have FF: "ddiv (real k) 10 = F" unfolding F_def by (rule factor_bounds [OF k])
  have Fi: "dbl F = F" by (simp add: F_def)
  have t: "t = 0 \<or> t = 1" using c by (auto simp: t_def)
  have b: "blendReal F h c = dbl (dbl (dbl h * F) + t * dbl (1 - F))"
    unfolding t_def by (rule blendReal_unfold [OF Fi c])
  have 1: "\<bar>blendReal F h c - t\<bar> \<le> 93 / 100 * \<bar>h - t\<bar> + 1 / 10000"
    unfolding b
  proof (rule blend_step_bound [where ?x1.0 = "dbl h" and F = F])
    show "0 \<le> F" "F \<le> 91 / 100" "\<bar>F + dbl (1 - F) - 1\<bar> \<le> 1 / 100000"
      unfolding F_def by (rule factor_bounds [OF k])+
    show "t = 0 \<or> t = 1" by (rule t)
    show "\<bar>dbl h - h\<bar> \<le> (\<bar>h\<bar> + 1) / 1000000" by (rule dbl_near)
    show "\<bar>dbl (dbl h * F) - dbl h * F\<bar> \<le> (\<bar>dbl h * F\<bar> + 1) / 1000000" by (rule dbl_near)
    show "\<bar>dbl (dbl (dbl h * F) + t * dbl (1 - F)) - (dbl (dbl h * F) + t * dbl (1 - F))\<bar>
          \<le> (\<bar>dbl (dbl h * F) + t * dbl (1 - F)\<bar> + 1) / 1000000"
      by (rule dbl_near)
  qed
  show "\<bar>blendReal (ddiv (real k) 10) h c - real (unat c)\<bar>
           \<le> 93 / 100 * \<bar>h - real (unat c)\<bar> + 1 / 10000"
    using 1 unfolding FF t_def .
  have t1: "\<bar>t\<bar> \<le> 1" using t by auto
  have "\<bar>f32 (blendReal F h c) - blendReal F h c\<bar> \<le> (\<bar>blendReal F h c\<bar> + 1) / 1000000"
    by (rule f32_near)
  moreover have "\<bar>blendReal F h c - t\<bar> \<le> 93 / 100 * d + 1 / 10000" unfolding d_def by (rule 1)
  ultimately have "\<bar>f32 (blendReal F h c) - t\<bar>
      \<le> (93 / 100 * d + 1 / 10000) + ((93 / 100 * d + 1 / 10000) + 2) / 1000000"
    using t1 by (rule round_step)
  then have "\<bar>f32 (blendReal F h c) - t\<bar> \<le> 19 / 20 * d + 1 / 1000"
    unfolding add_divide_distrib using d0 by linarith
  then show "\<bar>f32 (dbl (blendReal (ddiv (real k) 10) h c)) - real (unat c)\<bar>
           \<le> 19 / 20 * \<bar>h - real (unat c)\<bar> + 1 / 1000"
    unfolding FF d_def t_def by simp
qed

lemma stepHist_pow_bound:
  assumes len: "length hs = length m" and i: "i < length m"
    and k: "0 < k" "k < (10 :: nat)" and c: "m ! i = 0 \<or> m ! i = 1"
  shows "\<bar>(stepHist (ddiv (real k) 10) m ^^ n) hs ! i - real (unat (m ! i))\<bar>
         \<le> (19 / 20) ^ n * \<bar>hs ! i - real (unat (m ! i))\<bar> + 1 / 50"
proof (induction n)
  case 0
  show ?case by simp
next
  case (Suc n)
  let ?F = "ddiv (real k) 10"
  let ?t = "real (unat (m ! i))"
  define g where "g = (stepHist ?F m ^^ n) hs"
  define a where "a = \<bar>g ! i - ?t\<bar>"
  define b where "b = (19 / 20) ^ n * \<bar>hs ! i - ?t\<bar>"
  have lg: "length g = length m" unfolding g_def using len by simp
  have "(stepHist ?F m ^^ Suc n) hs ! i = f32 (dbl (blendReal ?F (g ! i) (m ! i)))"
    using i lg by (simp add: stepHist_def g_def [symmetric])
  moreover have "\<bar>f32 (dbl (blendReal ?F (g ! i) (m ! i))) - ?t\<bar> \<le> 19 / 20 * a + 1 / 1000"
    unfolding a_def by (rule blend_contracts(2) [OF k c])
  moreover have "a \<le> b + 1 / 50" using Suc unfolding a_def b_def g_def .
  ultimately have "\<bar>(stepHist ?F m ^^ Suc n) hs ! i - ?t\<bar> \<le> 19 / 20 * b + 1 / 50"
    by linarith
  then show ?case unfolding b_def by simp
qed

lemma threshHist_binary:
  assumes "length hs = length m" "list_all (\<lambda>b. b = 0 \<or> b = 1) m"
    and close: "\<And>i. i < length m \<Longrightarrow> \<bar>blendReal F (hs ! i) (m ! i) - real (unat (m ! i))\<bar> < 1 / 2"
  shows "threshHist F m hs = m"
proof (rule nth_equalityI)
  show "length (threshHist F m hs) = length m" using assms(1) by (simp add: threshHist_def)
next
  fix i
  assume "i < length (threshHist F m hs)"
  then have i: "i < length m" using assms(1) by (simp add: threshHist_def)
  have b: "m ! i = 0 \<or> m ! i = 1" using assms(2) i by (simp add: list_all_length)
  define v where "v = blendReal F (hs ! i) (m ! i)"
  have c: "\<bar>v - real (unat (m ! i))\<bar> < 1 / 2" unfolding v_def by (rule close [OF i])
  have "threshHist F m hs ! i = (if 1 / 2 < v then 1 else 0)"
    unfolding v_def using i assms(1) by (simp add: threshHist_def dbl_numerals)
  also have "\<dots> = m ! i"
  proof (cases "m ! i = 0")
    case True
    then have "real (unat (m ! i)) = 0" by simp
    then have "\<not> 1 / 2 < v" using c by linarith
    then show ?thesis using True by simp
  next
    case False
    then have one: "m ! i = 1" using b by simp
    then have "real (unat (m ! i)) = 1" by simp
    then have "1 / 2 < v" using c by linarith
    then show ?thesis using one by simp
  qed
  finally show "threshHist F m hs ! i = m ! i" .
qed

lemma frames_converge:
  assumes k: "0 < k" "k < (10 :: nat)" and len: "length hs = length m"
    and bin: "list_all (\<lambda>b. b = 0 \<or> b = 1) m"
  shows "\<exists>N. \<forall>n\<ge>N. threshHist (ddiv (real k) 10) m ((stepHist (ddiv (real k) 10) m ^^ n) hs) = m"
proof -
  let ?F = "ddiv (real k) 10"
  define \<rho> :: real where "\<rho> = 19 / 20"
  define C where "C = Max (insert 0 ((\<lambda>x. \<bar>x\<bar>) ` set hs)) + 2"
  have C: "0 < C"
  proof -
    have "0 \<le> Max (insert 0 ((\<lambda>x. \<bar>x\<bar>) ` set hs))" by (intro Max_ge) simp_all
    then show ?thesis unfolding C_def by linarith
  qed
  have bound: "\<bar>hs ! i - real (unat (m ! i))\<bar> \<le> C" if "i < length m" for i
  proof -
    have "\<bar>hs ! i\<bar> \<le> Max (insert 0 ((\<lambda>x. \<bar>x\<bar>) ` set hs))"
      using that len by (intro Max_ge) simp_all
    moreover have "m ! i = 0 \<or> m ! i = 1" using bin that by (simp add: list_all_length)
    then have "real (unat (m ! i)) \<le> 1" by auto
    ultimately show ?thesis unfolding C_def by linarith
  qed
  obtain N where N: "\<rho> ^ N < 1 / (4 * C)"
    using real_arch_pow_inv [of "1 / (4 * C)" \<rho>] C by (auto simp: \<rho>_def)
  have "threshHist ?F m ((stepHist ?F m ^^ n) hs) = m" if "N \<le> n" for n
  proof (rule threshHist_binary)
    show "length ((stepHist ?F m ^^ n) hs) = length m" using len by simp
    show "list_all (\<lambda>b. b = 0 \<or> b = 1) m" by (rule bin)
  next
    fix i
    assume i: "i < length m"
    let ?t = "real (unat (m ! i))"
    define g where "g = (stepHist ?F m ^^ n) hs ! i"
    have c: "m ! i = 0 \<or> m ! i = 1" using bin i by (simp add: list_all_length)
    have pw: "\<rho> ^ n \<le> \<rho> ^ N" using that by (intro power_decreasing) (simp_all add: \<rho>_def)
    have p0: "0 \<le> \<rho> ^ n" by (simp add: \<rho>_def)
    have "\<rho> ^ n * \<bar>hs ! i - ?t\<bar> \<le> \<rho> ^ N * \<bar>hs ! i - ?t\<bar>"
      using pw by (intro mult_right_mono) simp_all
    also have "\<dots> \<le> \<rho> ^ N * C"
      using bound [OF i] by (intro mult_left_mono) (simp_all add: \<rho>_def)
    also have "\<dots> < 1 / (4 * C) * C"
      using N C by (intro mult_strict_right_mono) simp_all
    also have "\<dots> = 1 / 4" using C by simp
    finally have q: "\<rho> ^ n * \<bar>hs ! i - ?t\<bar> < 1 / 4" .
    define P where "P = \<rho> ^ n * \<bar>hs ! i - ?t\<bar>"
    define a where "a = \<bar>g - ?t\<bar>"
    have "a \<le> P + 1 / 50"
      unfolding a_def P_def g_def \<rho>_def by (rule stepHist_pow_bound [OF len i k c])
    moreover have "P < 1 / 4" unfolding P_def by (rule q)
    ultimately have a: "a < 1 / 4 + 1 / 50" by linarith
    have "\<bar>blendReal ?F g (m ! i) - ?t\<bar> \<le> 93 / 100 * a + 1 / 10000"
      unfolding a_def by (rule blend_contracts(1) [OF k c])
    then show "\<bar>blendReal ?F ((stepHist ?F m ^^ n) hs ! i) (m ! i) - ?t\<bar> < 1 / 2"
      using a unfolding g_def by linarith
  qed
  then show ?thesis by blast
qed

text \<open>
  Claim C8, as the specification states it, covers every smoothing strength from 0 to 10.
  At 10 the factor is 1 and the blend is the old history: with the history \<open>[0]\<close> and the
  constant mask \<open>[1]\<close> every frame returns \<open>[0]\<close>.
\<close>

theorem smoothing_ten_never_converges:
  "\<not> (\<exists>N. \<forall>n\<ge>N. snd (smoothFrames stuckRenderer [1] 1 1 n) = [1])"
proof
  assume "\<exists>N. \<forall>n\<ge>N. snd (smoothFrames stuckRenderer [1] 1 1 n) = [1]"
  then obtain N where "snd (smoothFrames stuckRenderer [1] 1 1 N) = [1]" by blast
  then show False by (simp only: stuck_frames) simp
qed

text \<open>
  Claim C8, amended: for every integer smoothing strength from 0 to 9, every stored
  history of \<^verbatim>\<open>Float32Array\<close> numbers of the mask's length, and every mask of cells 0 and 1
  fed on every frame, there is a frame from which on temporal smoothing returns that mask
  on every frame. The factor and the blend are computed in doubles and the blend is
  rounded again when it is stored in the history.
\<close>

theorem constant_mask_converges:
  assumes "smoothing (settings r) = Num (real k)" "k < 10"
    and "prevMask r = Some (map Num hs)" "length hs = length m" "list_all isFloat32 hs"
    and "list_all (\<lambda>b. b = 0 \<or> b = 1) m"
  shows "\<exists>N. \<forall>n\<ge>N. snd (smoothFrames r m w h n) = m"
proof (cases "k = 0")
  case True
  then show ?thesis using smoothFrames_zero [of r m w h] assms(1) by simp
next
  case False
  then have k: "0 < k" by simp
  have "k < 2 ^ 53" using assms(2) by simp
  then have nz: "dbl (real k) \<noteq> 0" using k by (simp add: dbl_of_nat)
  obtain N where
    "\<forall>n\<ge>N. threshHist (ddiv (real k) 10) m ((stepHist (ddiv (real k) 10) m ^^ n) hs) = m"
    using frames_converge [OF k assms(2) assms(4) assms(6)] by blast
  then have "\<forall>n\<ge>N. snd (smoothFrames r m w h n) = m"
    using smoothFrames_num [OF assms(3) assms(1) nz assms(4), of w h] by simp
  then show ?thesis by blast
qed

theorem constant_mask_converges_witness:
  "\<exists>N. \<forall>n\<ge>N. snd (smoothFrames halfRenderer [1] 1 1 n) = [1]"
proof -
  have "smoothing (settings halfRenderer) = Num (real 5)"
    "prevMask halfRenderer = Some (map Num [0])"
    by (simp_all add: halfRenderer_def newRenderer_def)
  then show ?thesis
    using constant_mask_converges [of halfRenderer 5 "[0]" "[1]" 1 1]
    by (simp add: isFloat32_def)
qed


section \<open>The compositor\<close>

lemma dbl_byte: "dbl (real (unat (b :: byte))) = real (unat b)"
proof -
  have "unat b < 2 ^ 8" using unsigned_less [of b] by simp
  also have "(2 :: nat) ^ 8 < 2 ^ 53" by simp
  finally show ?thesis by (rule dbl_of_nat)
qed

lemma jeq_byteNum_0: "jeq (byteNum b) (Num 0) = (b = 0)"
proof -
  have "(real (unat b) = 0) = (unat b = 0)" by (rule of_nat_eq_0_iff)
  also have "\<dots> = (b = 0)" by (simp add: word_eq_iff_unsigned [where ?'a = nat])
  finally show ?thesis unfolding byteNum_def jeq.simps dbl_byte dbl_0 .
qed

lemma jeq_byteNum_1: "jeq (byteNum b) (Num 1) = (b = 1)"
proof -
  have "(real (unat b) = 1) = (unat b = 1)" by (rule of_nat_eq_1_iff)
  also have "\<dots> = (b = 1)" by (simp add: word_eq_iff_unsigned [where ?'a = nat])
  finally show ?thesis unfolding byteNum_def jeq.simps dbl_byte dbl_1 .
qed

lemma jeq_readU8_1: "jeq (readU8 m i) (Num 1) = (readU8 m i = Num 1)"
proof (cases "0 \<le> i \<and> i < int (length m)")
  case True
  have "(byteNum b = Num 1) = (b = 1)" for b :: byte
  proof -
    have "(real (unat b) = 1) = (unat b = 1)" by (rule of_nat_eq_1_iff)
    also have "\<dots> = (b = 1)" by (simp add: word_eq_iff_unsigned [where ?'a = nat])
    finally show ?thesis by (simp add: byteNum_def)
  qed
  then show ?thesis using True by (simp add: readU8_def jeq_byteNum_1)
next
  case False
  then show ?thesis by (auto simp: readU8_def)
qed

lemma readU8_one_in_range: "readU8 m i = Num 1 \<Longrightarrow> 0 \<le> i \<and> i < int (length m)"
  by (auto simp: readU8_def split: if_splits)

lemma four_of_pixel:
  assumes "x < cw" "y < ch"
  shows "[composite s m v w h cw ch ! ((y * cw + x) * 4),
          composite s m v w h cw ch ! ((y * cw + x) * 4 + 1),
          composite s m v w h cw ch ! ((y * cw + x) * 4 + 2),
          composite s m v w h cw ch ! ((y * cw + x) * 4 + 3)] =
         pixelValue s m v (hexToRGB (fillColor s)) (hexToRGB (bgColor s)) w h cw ch y x"
proof -
  let ?pv = "pixelValue s m v (hexToRGB (fillColor s)) (hexToRGB (bgColor s)) w h cw ch y x"
  have px: "composite s m v w h cw ch ! ((y * cw + x) * 4 + c) = ?pv ! c" if "c < 4" for c
    by (rule composite_pixel [OF assms that])
  have "[composite s m v w h cw ch ! ((y * cw + x) * 4),
         composite s m v w h cw ch ! ((y * cw + x) * 4 + 1),
         composite s m v w h cw ch ! ((y * cw + x) * 4 + 2),
         composite s m v w h cw ch ! ((y * cw + x) * 4 + 3)] = [?pv ! 0, ?pv ! 1, ?pv ! 2, ?pv ! 3]"
    using px [of 0] px [of 1] px [of 2] px [of 3] by simp
  also have "\<dots> = ?pv" by (simp add: pixelValue_def)
  finally show ?thesis .
qed

lemma fill_pixelValue:
  assumes "fillOpacity s = Num (5 / 10)" "fillColor s = ''#ffffff''"
    and "\<not> bgReplace s" "vizMode s = ''fill''"
    and "readU8 m (maskIndex w h cw ch x y) = Num 1"
    and "readU8 v (maskIndex w h cw ch x y * 4) = Num 100"
      "readU8 v (maskIndex w h cw ch x y * 4 + 1) = Num 100"
      "readU8 v (maskIndex w h cw ch x y * 4 + 2) = Num 100"
  shows "pixelValue s m v (hexToRGB (fillColor s)) (hexToRGB (bgColor s)) w h cw ch y x =
         [178, 178, 178, 255]"
  using assms by (simp add: pixelValue_def hexToRGB_white blend_white_half)

lemma example_cell: "maskIndex w h cw ch 0 0 = 0"
  by (simp add: maskIndex_def)

lemma example_mask:
  "snd (processMask fillRenderer (seg_data onePixelMask) (seg_width onePixelMask)
         (seg_height onePixelMask)) = [1]"
  by (simp add: processMask_first_frame fillRenderer_simps defaultSettings_def onePixelMask_def)

lemma example_pixel:
  "pixelValue (settings fillRenderer) [1] grayPixel (hexToRGB (fillColor (settings fillRenderer)))
     (hexToRGB (bgColor (settings fillRenderer))) 1 1 1 1 0 0 = [178, 178, 178, 255]"
  by (rule fill_pixelValue)
    (simp_all add: fillRenderer_simps defaultSettings_def example_cell readU8_def byteNum_def
      grayPixel_def)

lemma example_draw:
  "drawnBuffer (drawSegmentation fillRenderer grayPixel (Some onePixelMask)) =
     Some [178, 178, 178, 255]"
proof -
  let ?out = "composite (settings fillRenderer) [1] grayPixel 1 1 1 1"
  have l: "length ?out = 4" by (simp add: composite_length)
  have "[?out ! 0, ?out ! 1, ?out ! 2, ?out ! 3] = [178, 178, 178, 255]"
    using four_of_pixel [of 0 1 0 1 "settings fillRenderer" "[1]" grayPixel 1 1] example_pixel
    by (simp add: numeral_2_eq_2)
  then have n: "?out ! 0 = 178" "?out ! 1 = 178" "?out ! 2 = 178" "?out ! 3 = 255" by simp_all
  have out: "?out = [178, 178, 178, 255]"
  proof (rule nth_equalityI)
    show "length ?out = length [178, 178, 178, 255 :: byte]" using l by simp
  next
    fix i
    assume "i < length ?out"
    then have "i = 0 \<or> i = 1 \<or> i = 2 \<or> i = 3" using l by auto
    then show "?out ! i = [178, 178, 178, 255] ! i" using n by auto
  qed
  have dr: "drawSegmentation fillRenderer grayPixel (Some onePixelMask) =
     (fst (processMask fillRenderer (seg_data onePixelMask) (seg_width onePixelMask)
            (seg_height onePixelMask)),
      Inr (Some \<lparr> outputData =
                    composite (settings fillRenderer)
                      (snd (processMask fillRenderer (seg_data onePixelMask)
                             (seg_width onePixelMask) (seg_height onePixelMask)))
                      grayPixel (seg_width onePixelMask) (seg_height onePixelMask)
                      (canvasWidth fillRenderer) (canvasHeight fillRenderer),
                  outlineCalls =
                    (if vizMode (settings fillRenderer) = ''outline'' \<or>
                        vizMode (settings fillRenderer) = ''both''
                     then drawOutline
                            (fst (processMask fillRenderer (seg_data onePixelMask)
                                   (seg_width onePixelMask) (seg_height onePixelMask)))
                            (snd (processMask fillRenderer (seg_data onePixelMask)
                                   (seg_width onePixelMask) (seg_height onePixelMask)))
                            (seg_width onePixelMask) (seg_height onePixelMask)
                            (hexToRGB (outlineColor (settings fillRenderer)))
                     else []) \<rparr>))"
    by (rule drawSegmentation_draws) (simp_all add: fillRenderer_simps onePixelMask_def)
  from out show ?thesis
    unfolding dr example_mask
    by (simp add: drawnBuffer_def fillRenderer_simps onePixelMask_def)
qed

text \<open>
  Claim C1, as the specification states it, gives \<open>(177, 177, 177)\<close> for the source pixel
  \<open>(100, 100, 100)\<close> under a white fill of opacity 0.5. Each channel is
  \<open>100 * 0.5 + 255 * 0.5 = 177.5\<close>, and the output buffer rounds a tie to the even
  neighbour: on a canvas of one pixel over a mask of one segmented cell the bytes written
  are \<open>(178, 178, 178)\<close>, not \<open>(177, 177, 177)\<close>.
\<close>

theorem fill_example_not_177:
  "map_option (take 3) (drawnBuffer (drawSegmentation fillRenderer grayPixel (Some onePixelMask)))
     = Some [178, 178, 178] \<and>
   map_option (take 3) (drawnBuffer (drawSegmentation fillRenderer grayPixel (Some onePixelMask)))
     \<noteq> Some [177, 177, 177]"
  by (simp add: example_draw)

text \<open>
  Claim C1, amended: with fill opacity 0.5, fill colour \<^verbatim>\<open>#ffffff\<close>, background replace off
  and viz mode "fill", every output pixel whose mask cell is segmented and whose source
  pixel is \<open>(100, 100, 100)\<close> is written as \<open>(178, 178, 178)\<close> with alpha 255.
\<close>

theorem fill_example_178:
  assumes "fillOpacity (settings r) = Num (5 / 10)" "fillColor (settings r) = ''#ffffff''"
    and "\<not> bgReplace (settings r)" "vizMode (settings r) = ''fill''"
    and "0 < seg_width sg" "0 < seg_height sg" "0 < canvasWidth r" "0 < canvasHeight r"
    and "x < canvasWidth r" "y < canvasHeight r"
    and "i = maskIndex (seg_width sg) (seg_height sg) (canvasWidth r) (canvasHeight r) x y"
    and "readU8 (snd (processMask r (seg_data sg) (seg_width sg) (seg_height sg))) i = Num 1"
    and "readU8 videoData (i * 4) = Num 100" "readU8 videoData (i * 4 + 1) = Num 100"
      "readU8 videoData (i * 4 + 2) = Num 100"
  shows "\<exists>r' fo. drawSegmentation r videoData (Some sg) = (r', Inr (Some fo)) \<and>
           outputData fo ! ((y * canvasWidth r + x) * 4) = 178 \<and>
           outputData fo ! ((y * canvasWidth r + x) * 4 + 1) = 178 \<and>
           outputData fo ! ((y * canvasWidth r + x) * 4 + 2) = 178 \<and>
           outputData fo ! ((y * canvasWidth r + x) * 4 + 3) = 255"
proof -
  let ?m = "snd (processMask r (seg_data sg) (seg_width sg) (seg_height sg))"
  let ?out = "composite (settings r) ?m videoData (seg_width sg) (seg_height sg)
                (canvasWidth r) (canvasHeight r)"
  have pv: "pixelValue (settings r) ?m videoData (hexToRGB (fillColor (settings r)))
              (hexToRGB (bgColor (settings r))) (seg_width sg) (seg_height sg)
              (canvasWidth r) (canvasHeight r) y x = [178, 178, 178, 255]"
    using assms(1-4) assms(12-15) unfolding assms(11) by (rule fill_pixelValue)
  have "[?out ! ((y * canvasWidth r + x) * 4), ?out ! ((y * canvasWidth r + x) * 4 + 1),
         ?out ! ((y * canvasWidth r + x) * 4 + 2), ?out ! ((y * canvasWidth r + x) * 4 + 3)] =
        [178, 178, 178, 255]"
    unfolding four_of_pixel [OF assms(9) assms(10)] by (rule pv)
  then show ?thesis
    unfolding drawSegmentation_draws [OF assms(5-8), of videoData] by simp
qed

theorem fill_example_178_witness:
  "\<exists>r' fo. drawSegmentation fillRenderer grayPixel (Some onePixelMask) = (r', Inr (Some fo)) \<and>
           outputData fo ! 0 = 178 \<and> outputData fo ! 1 = 178 \<and> outputData fo ! 2 = 178 \<and>
           outputData fo ! 3 = 255"
proof -
  have s: "fillOpacity (settings fillRenderer) = Num (5 / 10)"
    "fillColor (settings fillRenderer) = ''#ffffff''"
    "\<not> bgReplace (settings fillRenderer)" "vizMode (settings fillRenderer) = ''fill''"
    by (simp_all add: fillRenderer_simps defaultSettings_def)
  have d: "0 < seg_width onePixelMask" "0 < seg_height onePixelMask"
    "0 < canvasWidth fillRenderer" "0 < canvasHeight fillRenderer"
    "0 < canvasWidth fillRenderer" "0 < canvasHeight fillRenderer"
    by (simp_all add: fillRenderer_simps onePixelMask_def)
  have i: "0 = maskIndex (seg_width onePixelMask) (seg_height onePixelMask)
                 (canvasWidth fillRenderer) (canvasHeight fillRenderer) 0 0"
    by (simp add: fillRenderer_simps onePixelMask_def example_cell)
  have m: "readU8 (snd (processMask fillRenderer (seg_data onePixelMask)
                     (seg_width onePixelMask) (seg_height onePixelMask))) 0 = Num 1"
    by (simp add: example_mask readU8_def byteNum_def)
  have v: "readU8 grayPixel (0 * 4) = Num 100" "readU8 grayPixel (0 * 4 + 1) = Num 100"
    "readU8 grayPixel (0 * 4 + 2) = Num 100"
    by (simp_all add: readU8_def byteNum_def grayPixel_def)
  show ?thesis
    using fill_example_178 [OF s d i m v] by (simp add: fillRenderer_simps numeral_2_eq_2)
qed

lemma wideRenderer_simps:
  "settings wideRenderer =
     defaultSettings\<lparr>vizMode := ''outline'', bgReplace := True, bgColor := ''#ff8000''\<rparr>"
  "prevMask wideRenderer = None" "canvasWidth wideRenderer = 18" "canvasHeight wideRenderer = 1"
  by (simp_all add: wideRenderer_def newRenderer_def)

lemma wide_cells:
  "\<lfloor>dbl (9 / dbl (18 / 14))\<rfloor> = 6" "\<lfloor>dbl (10 / dbl (18 / 14))\<rfloor> = 7"
  by code_simp+

lemma wide_index: "maskIndex 14 h 18 ch 9 0 = 6" "maskIndex 14 h 18 ch 10 0 = 7"
proof -
  have d: "dbl 9 = 9" "dbl 14 = 14" "dbl 18 = 18"
    using dbl_of_int [of 9] dbl_of_int [of 14] dbl_of_int [of 18] by simp_all
  show "maskIndex 14 h 18 ch 9 0 = 6"
    using wide_cells(1) by (simp add: maskIndex_def ddiv_def d dbl_numerals)
  show "maskIndex 14 h 18 ch 10 0 = 7"
    using wide_cells(2) by (simp add: maskIndex_def ddiv_def d dbl_numerals)
qed

text \<open>
  Claim C3: with background replace on, viz mode "outline" and a background colour of
  the form \<^verbatim>\<open>#rrggbb\<close>, the four bytes written for any output pixel \<open>(x, y)\<close> are the
  bytes of the source pixel at the mask cell the pixel maps to, with alpha 255, if that
  cell of the processed mask is 1, and otherwise the three bytes that the hexadecimal
  digit pairs of the background colour denote, with alpha 255. The cell is the one the
  loop computes, by dividing doubles.
\<close>

theorem bgReplace_outline_pixels:
  assumes "bgReplace (settings r)" "vizMode (settings r) = ''outline''"
    and "bgColor (settings r) = [CHR ''#'', a, b, c, d, e, f]"
    and "list_all isHexDigit [a, b, c, d, e, f]"
    and "0 < seg_width sg" "0 < seg_height sg" "0 < canvasWidth r" "0 < canvasHeight r"
    and "x < canvasWidth r" "y < canvasHeight r"
    and "length (seg_data sg) = seg_width sg * seg_height sg"
    and "length videoData = seg_width sg * seg_height sg * 4"
    and "i = maskIndex (seg_width sg) (seg_height sg) (canvasWidth r) (canvasHeight r) x y"
    and "p = (y * canvasWidth r + x) * 4"
  shows "\<exists>r' fo. drawSegmentation r videoData (Some sg) = (r', Inr (Some fo)) \<and>
           [outputData fo ! p, outputData fo ! (p + 1), outputData fo ! (p + 2),
            outputData fo ! (p + 3)] =
           (if readU8 (snd (processMask r (seg_data sg) (seg_width sg) (seg_height sg))) i = Num 1
            then [videoData ! (nat i * 4), videoData ! (nat i * 4 + 1),
                  videoData ! (nat i * 4 + 2), 255]
            else [word_of_nat (16 * hexDigitValue a + hexDigitValue b),
                  word_of_nat (16 * hexDigitValue c + hexDigitValue d),
                  word_of_nat (16 * hexDigitValue e + hexDigitValue f), 255])"
proof -
  let ?m = "snd (processMask r (seg_data sg) (seg_width sg) (seg_height sg))"
  let ?out = "composite (settings r) ?m videoData (seg_width sg) (seg_height sg)
                (canvasWidth r) (canvasHeight r)"
  let ?pv = "pixelValue (settings r) ?m videoData (hexToRGB (fillColor (settings r)))
               (hexToRGB (bgColor (settings r))) (seg_width sg) (seg_height sg)
               (canvasWidth r) (canvasHeight r) y x"
  let ?bg = "[word_of_nat (16 * hexDigitValue a + hexDigitValue b),
              word_of_nat (16 * hexDigitValue c + hexDigitValue d),
              word_of_nat (16 * hexDigitValue e + hexDigitValue f), 255 :: byte]"
  have lm: "length ?m = seg_width sg * seg_height sg"
    using processMask_length [of r "seg_data sg" "seg_width sg" "seg_height sg"] assms(11)
    by simp
  have bg: "[toUint8Clamp (hexToRGB (bgColor (settings r)) ! 0),
             toUint8Clamp (hexToRGB (bgColor (settings r)) ! 1),
             toUint8Clamp (hexToRGB (bgColor (settings r)) ! 2), 255] = ?bg"
  proof -
    have "map toUint8Clamp (hexToRGB (bgColor (settings r))) @ [255] = ?bg"
      unfolding assms(3) hexToRGB_wellformed [OF assms(4)] by simp
    then show ?thesis by (simp add: hexToRGB_def)
  qed
  have pv: "?pv =
      (if readU8 ?m i = Num 1
       then [videoData ! (nat i * 4), videoData ! (nat i * 4 + 1), videoData ! (nat i * 4 + 2), 255]
       else ?bg)"
  proof (cases "readU8 ?m i = Num 1")
    case True
    then have rng: "0 \<le> i" "i < int (seg_width sg * seg_height sg)"
      using readU8_one_in_range [of ?m i] lm by simp_all
    have v: "toUint8Clamp (readU8 videoData (i * 4 + k)) = videoData ! (nat i * 4 + nat k)"
      if "0 \<le> k" "k < 4" for k
    proof -
      have "0 \<le> i * 4 + k" "i * 4 + k < int (length videoData)"
        using rng that assms(12) by simp_all
      moreover have "nat (i * 4 + k) = nat i * 4 + nat k"
        using rng that by (simp add: nat_add_distrib nat_mult_distrib)
      ultimately show ?thesis using readU8_in_range [of "i * 4 + k" videoData] by simp
    qed
    have v0: "toUint8Clamp (readU8 videoData (i * 4)) = videoData ! (nat i * 4)"
      using v [of 0] by simp
    have v1: "toUint8Clamp (readU8 videoData (i * 4 + 1)) = videoData ! (nat i * 4 + 1)"
      using v [of 1] by simp
    have v2: "toUint8Clamp (readU8 videoData (i * 4 + 2)) = videoData ! (nat i * 4 + 2)"
      using v [of 2] by simp
    show ?thesis
      using True assms(1,2) v0 v1 v2
      by (simp add: pixelValue_def jeq_readU8_1 assms(13) [symmetric])
  next
    case False
    then show ?thesis
      using assms(1,2) bg by (simp add: pixelValue_def jeq_readU8_1 assms(13) [symmetric])
  qed
  have "[?out ! p, ?out ! (p + 1), ?out ! (p + 2), ?out ! (p + 3)] = ?pv"
    unfolding assms(14) by (rule four_of_pixel [OF assms(9) assms(10)])
  then show ?thesis
    unfolding drawSegmentation_draws [OF assms(5-8), of videoData] using pv by simp
qed

theorem bgReplace_outline_pixels_witness:
  "\<exists>r' fo. drawSegmentation wideRenderer video14 (Some mask14) = (r', Inr (Some fo)) \<and>
      [outputData fo ! 36, outputData fo ! 37, outputData fo ! 38, outputData fo ! 39]
        = [16, 26, 36, 255] \<and>
      [outputData fo ! 40, outputData fo ! 41, outputData fo ! 42, outputData fo ! 43]
        = [255, 128, 0, 255]"
proof -
  have s: "bgReplace (settings wideRenderer)" "vizMode (settings wideRenderer) = ''outline''"
    "bgColor (settings wideRenderer) =
       [CHR ''#'', CHR ''f'', CHR ''f'', CHR ''8'', CHR ''0'', CHR ''0'', CHR ''0'']"
    "list_all isHexDigit [CHR ''f'', CHR ''f'', CHR ''8'', CHR ''0'', CHR ''0'', CHR ''0'']"
    by (simp_all add: wideRenderer_simps isHexDigit_def)
  have d: "0 < seg_width mask14" "0 < seg_height mask14"
    "0 < canvasWidth wideRenderer" "0 < canvasHeight wideRenderer"
    by (simp_all add: wideRenderer_simps mask14_def)
  have x9: "9 < canvasWidth wideRenderer" and x10: "10 < canvasWidth wideRenderer"
    and y: "0 < canvasHeight wideRenderer"
    by (simp_all add: wideRenderer_simps)
  have l: "length (seg_data mask14) = seg_width mask14 * seg_height mask14"
    "length video14 = seg_width mask14 * seg_height mask14 * 4"
    by (simp_all add: video14_def mask14_def)
  have i9: "6 = maskIndex (seg_width mask14) (seg_height mask14)
                  (canvasWidth wideRenderer) (canvasHeight wideRenderer) 9 0"
    and i10: "7 = maskIndex (seg_width mask14) (seg_height mask14)
                  (canvasWidth wideRenderer) (canvasHeight wideRenderer) 10 0"
    by (simp_all add: wideRenderer_simps mask14_def wide_index)
  have p9: "36 = (0 * canvasWidth wideRenderer + 9) * 4"
    and p10: "40 = (0 * canvasWidth wideRenderer + 10) * 4"
    by (simp_all add: wideRenderer_simps)
  have m: "snd (processMask wideRenderer (seg_data mask14) (seg_width mask14)
                 (seg_height mask14)) = [0, 0, 0, 0, 0, 0, 1, 0, 0, 0, 0, 0, 0, 0]"
    by (simp add: processMask_first_frame wideRenderer_simps defaultSettings_def mask14_def)
  have m6: "readU8 [0, 0, 0, 0, 0, 0, 1, 0, 0, 0, 0, 0, 0, 0] 6 = Num 1"
    and m7: "readU8 [0, 0, 0, 0, 0, 0, 1, 0, 0, 0, 0, 0, 0, 0] 7 \<noteq> Num 1"
    by (simp_all add: readU8_def byteNum_def)
  have bg: "hexDigitValue CHR ''f'' = 15" "hexDigitValue CHR ''8'' = 8"
    "hexDigitValue CHR ''0'' = 0"
    by (simp_all add: hexDigitValue_def)
  have v: "video14 ! 24 = 16" "video14 ! 25 = 26" "video14 ! 26 = 36"
    by (simp_all add: video14_def)
  show ?thesis
    using bgReplace_outline_pixels [OF s d x9 y l i9 p9]
      bgReplace_outline_pixels [OF s d x10 y l i10 p10]
    by (auto simp add: m m6 m7 bg v)
qed

text \<open>
  Claim C4: for every mask with cells, every source frame, every canvas with pixels and
  every combination of settings, \<^verbatim>\<open>drawSegmentation\<close> produces an output buffer of four
  bytes for each canvas pixel, and the alpha byte of every pixel is 255.
\<close>

theorem compositor_output_opaque:
  assumes "0 < seg_width sg" "0 < seg_height sg" "0 < canvasWidth r" "0 < canvasHeight r"
  shows "\<exists>r' fo. drawSegmentation r videoData (Some sg) = (r', Inr (Some fo)) \<and>
           length (outputData fo) = canvasWidth r * canvasHeight r * 4 \<and>
           (\<forall>x y. x < canvasWidth r \<and> y < canvasHeight r \<longrightarrow>
                  outputData fo ! ((y * canvasWidth r + x) * 4 + 3) = 255)"
proof -
  let ?m = "snd (processMask r (seg_data sg) (seg_width sg) (seg_height sg))"
  let ?out = "composite (settings r) ?m videoData (seg_width sg) (seg_height sg)
                (canvasWidth r) (canvasHeight r)"
  have "?out ! ((y * canvasWidth r + x) * 4 + 3) = 255"
    if "x < canvasWidth r \<and> y < canvasHeight r" for x y
    using that composite_pixel [of x "canvasWidth r" y "canvasHeight r" 3]
    by (simp only: pixelValue_alpha)
  moreover have "length ?out = canvasWidth r * canvasHeight r * 4"
    by (rule composite_length)
  ultimately show ?thesis
    unfolding drawSegmentation_draws [OF assms, of videoData] by simp
qed

theorem compositor_output_opaque_witness:
  "\<exists>r' fo. drawSegmentation fillRenderer grayPixel (Some onePixelMask) = (r', Inr (Some fo)) \<and>
           length (outputData fo) = 4 \<and> outputData fo ! 3 = 255"
  using compositor_output_opaque [of onePixelMask fillRenderer grayPixel]
  by (simp add: fillRenderer_simps onePixelMask_def)

section \<open>The outline tracer\<close>

lemma cell_index_range:
  assumes "0 \<le> nx" "nx < int w" "0 \<le> ny" "ny < int h"
  shows "0 \<le> ny * int w + nx" "ny * int w + nx < int (w * h)"
    "nat (ny * int w + nx) < w * h"
proof -
  show nn: "0 \<le> ny * int w + nx" using assms by simp
  have "ny * int w + nx < ny * int w + int w" using assms by simp
  also have "\<dots> = (ny + 1) * int w" by (simp add: algebra_simps)
  also have "\<dots> \<le> int h * int w" using assms by (intro mult_right_mono) simp_all
  finally show lt: "ny * int w + nx < int (w * h)" by (simp add: mult.commute)
  show "nat (ny * int w + nx) < w * h" using nn lt by linarith
qed

lemma readU8_cell:
  assumes "length m = w * h" "0 \<le> nx" "nx < int w" "0 \<le> ny" "ny < int h"
  shows "readU8 m (ny * int w + nx) = byteNum (m ! nat (ny * int w + nx))"
  using cell_index_range(1,2) [OF assms(2-5)] assms(1) by (simp add: readU8_def)

lemma edge_fold:
  "foldl (edgeStep m w h x y) e ds =
     (e \<or> list_ex (\<lambda>d. 0 \<le> int x + snd d \<and> int x + snd d < int w \<and>
                        0 \<le> int y + fst d \<and> int y + fst d < int h \<and>
                        jeq (readU8 m ((int y + fst d) * int w + (int x + snd d))) (Num 0)) ds)"
  by (induction ds arbitrary: e) (auto simp: edgeStep_def Let_def)

lemma kernelOffsets_eq:
  "kernelOffsets = [(- 1, - 1), (- 1, 0), (- 1, 1), (0, - 1), (0, 0), (0, 1), (1, - 1), (1, 0), (1, 1)]"
  by (simp add: kernelOffsets_def)

lemma edge_cond_cell:
  assumes "length m = w * h"
  shows "(0 \<le> int x + dx \<and> int x + dx < int w \<and> 0 \<le> int y + dy \<and> int y + dy < int h \<and>
          jeq (readU8 m ((int y + dy) * int w + (int x + dx))) (Num 0)) =
         (0 \<le> int x + dx \<and> int x + dx < int w \<and> 0 \<le> int y + dy \<and> int y + dy < int h \<and>
          m ! nat ((int y + dy) * int w + (int x + dx)) = 0)"
  using readU8_cell [OF assms, of "int x + dx" "int y + dy"] by (auto simp: jeq_byteNum_0)

lemma isEdgeCell_specEdge:
  assumes "length m = w * h" "x < w" "y < h"
  shows "isEdgeCell m w h x y = specEdge m w h x y"
proof -
  define S where "S = (\<lambda>d :: int \<times> int.
      0 \<le> int x + snd d \<and> int x + snd d < int w \<and> 0 \<le> int y + fst d \<and> int y + fst d < int h \<and>
      m ! nat ((int y + fst d) * int w + (int x + snd d)) = 0)"
  have n: "nat (int y * int w + int x) = y * w + x"
    by (simp flip: of_nat_mult of_nat_add)
  have c: "readU8 m (int (y * w + x)) = byteNum (m ! (y * w + x))"
    using readU8_cell [OF assms(1), of "int x" "int y"] assms(2,3) n by simp
  have CS: "(\<lambda>d. 0 \<le> int x + snd d \<and> int x + snd d < int w \<and>
                 0 \<le> int y + fst d \<and> int y + fst d < int h \<and>
                 jeq (readU8 m ((int y + fst d) * int w + (int x + snd d))) (Num 0)) = S"
    unfolding S_def by (rule ext) (rule edge_cond_cell [OF assms(1)])
  have split: "list_ex S kernelOffsets = (S (0, 0) \<or> list_ex S neighbours8)"
    by (auto simp: kernelOffsets_eq neighbours8_def)
  have s0: "\<not> S (0, 0)" if "m ! (y * w + x) = 1"
    using that by (simp add: S_def n)
  have "isEdgeCell m w h x y = (m ! (y * w + x) = 1 \<and> list_ex S kernelOffsets)"
    unfolding isEdgeCell_def edge_fold c jeq_byteNum_1 CS by simp
  also have "\<dots> = (m ! (y * w + x) = 1 \<and> list_ex S neighbours8)"
    unfolding split using s0 by blast
  also have "\<dots> = specEdge m w h x y"
    unfolding specEdge_def S_def by simp
  finally show ?thesis .
qed

lemma fold_append_if:
  "foldl (\<lambda>calls x. if P x then calls @ [g x] else calls) calls xs = calls @ map g (filter P xs)"
  by (induction xs arbitrary: calls) simp_all

lemma fold_append_rows:
  "foldl (\<lambda>calls y. calls @ F y) calls ys = calls @ concat (map F ys)"
  by (induction ys arbitrary: calls) simp_all

lemma drawOutline_eq:
  "drawOutline r m w h c =
     concat (map (\<lambda>y. map (\<lambda>x. outlineRect r w h c x y)
                        (filter (\<lambda>x. isEdgeCell m w h x y) [0..<w])) [0..<h])"
  by (simp add: drawOutline_def fold_append_if fold_append_rows)

lemma specEdge_needs_zero:
  assumes "length m = w * h" "list_all (\<lambda>b. b = 1) m"
  shows "\<not> specEdge m w h x y"
proof
  assume "specEdge m w h x y"
  then obtain d where d: "0 \<le> int x + snd d" "int x + snd d < int w" "0 \<le> int y + fst d"
    "int y + fst d < int h" "m ! nat ((int y + fst d) * int w + (int x + snd d)) = 0"
    unfolding specEdge_def list_ex_iff by blast
  have "nat ((int y + fst d) * int w + (int x + snd d)) < length m"
    using cell_index_range(3) [OF d(1-4)] assms(1) by simp
  then have "m ! nat ((int y + fst d) * int w + (int x + snd d)) = 1"
    using assms(2) by (simp add: list_all_length)
  then show False using d(5) by simp
qed

text \<open>
  Claim C5: on a mask of \<open>maskWidth\<close> by \<open>maskHeight\<close> cells, \<^verbatim>\<open>drawOutline\<close> treats a cell as
  an edge exactly when the cell is 1 and one of its eight neighbours inside the mask is
  0; it fills one rectangle for each such cell, row by row, and no other; and on a mask
  whose cells are all 1 no cell is an edge and nothing is filled.
\<close>

theorem outline_marks_exactly_edges:
  assumes "length maskData = maskWidth * maskHeight"
  shows "(\<forall>x y. x < maskWidth \<and> y < maskHeight \<longrightarrow>
            isEdgeCell maskData maskWidth maskHeight x y = specEdge maskData maskWidth maskHeight x y) \<and>
         drawOutline r maskData maskWidth maskHeight color =
           concat (map (\<lambda>y. map (\<lambda>x. outlineRect r maskWidth maskHeight color x y)
                              (filter (\<lambda>x. specEdge maskData maskWidth maskHeight x y) [0..<maskWidth]))
                     [0..<maskHeight]) \<and>
         (list_all (\<lambda>b. b = 1) maskData \<longrightarrow>
            (\<forall>x y. \<not> isEdgeCell maskData maskWidth maskHeight x y) \<and>
            drawOutline r maskData maskWidth maskHeight color = [])"
proof (intro conjI allI impI)
  fix x y
  assume "x < maskWidth \<and> y < maskHeight"
  then show "isEdgeCell maskData maskWidth maskHeight x y = specEdge maskData maskWidth maskHeight x y"
    using isEdgeCell_specEdge [OF assms] by simp
next
  have "filter (\<lambda>x. isEdgeCell maskData maskWidth maskHeight x y) [0..<maskWidth] =
        filter (\<lambda>x. specEdge maskData maskWidth maskHeight x y) [0..<maskWidth]"
    if "y \<in> set [0..<maskHeight]" for y
    using that isEdgeCell_specEdge [OF assms] by (intro filter_cong) simp_all
  then show "drawOutline r maskData maskWidth maskHeight color =
           concat (map (\<lambda>y. map (\<lambda>x. outlineRect r maskWidth maskHeight color x y)
                              (filter (\<lambda>x. specEdge maskData maskWidth maskHeight x y) [0..<maskWidth]))
                     [0..<maskHeight])"
    unfolding drawOutline_eq by (intro arg_cong [where f = concat] map_cong) simp_all
next
  fix x y
  assume ones: "list_all (\<lambda>b. b = 1) maskData"
  show "\<not> isEdgeCell maskData maskWidth maskHeight x y"
  proof
    assume e: "isEdgeCell maskData maskWidth maskHeight x y"
    then obtain d where d: "0 \<le> int x + snd d" "int x + snd d < int maskWidth"
      "0 \<le> int y + fst d" "int y + fst d < int maskHeight"
      "jeq (readU8 maskData ((int y + fst d) * int maskWidth + (int x + snd d))) (Num 0)"
      unfolding isEdgeCell_def edge_fold list_ex_iff by blast
    have "nat ((int y + fst d) * int maskWidth + (int x + snd d)) < length maskData"
      using cell_index_range(3) [OF d(1-4)] assms by simp
    then have "maskData ! nat ((int y + fst d) * int maskWidth + (int x + snd d)) = 1"
      using ones by (simp add: list_all_length)
    then show False using d(5) readU8_cell [OF assms d(1-4)] by (simp add: jeq_byteNum_0)
  qed
next
  assume ones: "list_all (\<lambda>b. b = 1) maskData"
  have "\<not> isEdgeCell maskData maskWidth maskHeight x y" if "x < maskWidth" "y < maskHeight" for x y
    using isEdgeCell_specEdge [OF assms that] specEdge_needs_zero [OF assms ones] by simp
  then have "filter (\<lambda>x. isEdgeCell maskData maskWidth maskHeight x y) [0..<maskWidth] = []"
    if "y < maskHeight" for y
    using that by (simp add: filter_empty_conv)
  then show "drawOutline r maskData maskWidth maskHeight color = []"
    unfolding drawOutline_eq by simp
qed

theorem outline_marks_exactly_edges_witness:
  "isEdgeCell [1, 0] 2 1 0 0 \<and> \<not> isEdgeCell [1, 0] 2 1 1 0 \<and>
   drawOutline outlineRenderer [1, 0] 2 1 [] = [outlineRect outlineRenderer 2 1 [] 0 0] \<and>
   drawOutline outlineRenderer [1, 1] 2 1 [] = []"
proof -
  have l: "length [1, 0 :: byte] = 2 * 1" "length [1, 1 :: byte] = 2 * 1" by simp_all
  have s: "specEdge [1, 0] 2 1 0 0" "\<not> specEdge [1, 0] 2 1 1 0"
    by (simp_all add: specEdge_def neighbours8_def)
  have u: "[0..<2] = [0, 1]" "[0..<1] = [0]" by (simp_all add: upt_rec)
  have "drawOutline outlineRenderer [1, 0] 2 1 [] = [outlineRect outlineRenderer 2 1 [] 0 0]"
    using outline_marks_exactly_edges [OF l(1), of outlineRenderer "[]"] s
    by (simp add: u)
  moreover have "isEdgeCell [1, 0] 2 1 0 0" "\<not> isEdgeCell [1, 0] 2 1 1 0"
    using outline_marks_exactly_edges [OF l(1), of outlineRenderer "[]"] s by simp_all
  moreover have "list_all (\<lambda>b. b = 1) [1, 1 :: byte]" by simp
  then have "drawOutline outlineRenderer [1, 1] 2 1 [] = []"
    using outline_marks_exactly_edges [OF l(2), of outlineRenderer "[]"] by blast
  ultimately show ?thesis by simp
qed

end
